theory Spec2Isabelle
  imports Complex_Main "HOL-Library.AList"
begin

section \<open>The social graph\<close>

text \<open>
  Class \<open>SocialNetwork\<close> of \<open>Sm_Prediction.cpp\<close> has a single private field,
  \<^verbatim>\<open>std::unordered_map<int, std::unordered_set<int>> graph\<close>.
  The map is an association list from user identifiers to neighbour collections, read with
  \<open>map_of\<close> and written with \<open>AList.update\<close> (replace the entry of a present key, add
  an entry for an absent one). An \<^verbatim>\<open>unordered_set<int>\<close> is the list of its elements
  in the order in which a range-based \<^verbatim>\<open>for\<close> visits them; the C++ standard leaves that
  order open, and every theorem below about a query is stated for all neighbour lists, hence
  for every iteration order. \<open>insert\<close> of a present element changes nothing, \<open>erase\<close>
  removes the element.

  Identifiers are only stored and compared, so the C++ \<^verbatim>\<open>int\<close> is \<open>int\<close>. Hop counts
  and tallies are counted up from 0 by 1 and stay below the number of stored entries, far
  from \<open>INT_MAX\<close>; the places where the source could leave the range of \<^verbatim>\<open>int\<close> by
  other means are written out where they occur.
\<close>

type_synonym SocialNetwork = "(int \<times> int list) list"

text \<open>\<^verbatim>\<open>graph.find(userId) != graph.end()\<close>\<close>

definition contains_user :: "SocialNetwork \<Rightarrow> int \<Rightarrow> bool" where
  "contains_user g userId = (map_of g userId \<noteq> None)"

text \<open>
  \<^verbatim>\<open>graph[userId]\<close> read as a value: the stored collection, the empty one for a key that
  \<^verbatim>\<open>operator[]\<close> has to create first.
\<close>

definition subscript :: "SocialNetwork \<Rightarrow> int \<Rightarrow> int list" where
  "subscript g userId = (case map_of g userId of None \<Rightarrow> [] | Some s \<Rightarrow> s)"

definition addUser :: "SocialNetwork \<Rightarrow> int \<Rightarrow> SocialNetwork" where
  "addUser g userId = (if \<not> contains_user g userId then AList.update userId [] g else g)"

definition addConnection :: "SocialNetwork \<Rightarrow> int \<Rightarrow> int \<Rightarrow> SocialNetwork" where
  "addConnection g userId1 userId2 =
     (let g1 = addUser g userId1;
          g2 = addUser g1 userId2;
          g3 = AList.update userId1 (List.insert userId2 (subscript g2 userId1)) g2
      in AList.update userId2 (List.insert userId1 (subscript g3 userId2)) g3)"

definition removeConnection :: "SocialNetwork \<Rightarrow> int \<Rightarrow> int \<Rightarrow> SocialNetwork" where
  "removeConnection g userId1 userId2 =
     (if contains_user g userId1 \<and> contains_user g userId2 then
        let g1 = AList.update userId1 (removeAll userId2 (subscript g userId1)) g
        in AList.update userId2 (removeAll userId1 (subscript g1 userId2)) g1
      else g)"

definition getFriends :: "SocialNetwork \<Rightarrow> int \<Rightarrow> int list" where
  "getFriends g userId = (case map_of g userId of Some s \<Rightarrow> s | None \<Rightarrow> [])"

definition getTotalUsers :: "SocialNetwork \<Rightarrow> nat" where
  "getTotalUsers g = card (dom (map_of g))"

text \<open>The three mutating member functions, as the calls a driver can make.\<close>

datatype mutation = AddUser int | AddConnection int int | RemoveConnection int int

fun mutate :: "mutation \<Rightarrow> SocialNetwork \<Rightarrow> SocialNetwork" where
  "mutate (AddUser u) g = addUser g u"
| "mutate (AddConnection a b) g = addConnection g a b"
| "mutate (RemoveConnection a b) g = removeConnection g a b"

definition run :: "mutation list \<Rightarrow> SocialNetwork \<Rightarrow> SocialNetwork" where
  "run ms g = fold mutate ms g"

definition mutual :: "SocialNetwork \<Rightarrow> bool" where
  "mutual g = (\<forall>a b. (b \<in> set (getFriends g a)) = (a \<in> set (getFriends g b)))"


section \<open>Pairwise distance\<close>

definition INT_MAX :: int where
  "INT_MAX = 2147483647"

text \<open>
  The neighbour loop of \<open>getNetworkDistance\<close>:
  \<^verbatim>\<open>for (int neighbor : getFriends(currentUser))
    if (visited.count(neighbor) == 0) { visited.insert(neighbor); queue.push({neighbor, distance + 1}); }\<close>
  \<open>visited\<close> is only tested for membership and is a set; the queue is a list, pushed at
  the back and popped at the front.
\<close>

fun visitNeighbors ::
  "int \<Rightarrow> int list \<Rightarrow> int set \<times> (int \<times> int) list \<Rightarrow> int set \<times> (int \<times> int) list" where
  "visitNeighbors distance [] (visited, queue) = (visited, queue)"
| "visitNeighbors distance (neighbor # rest) (visited, queue) =
     (if neighbor \<notin> visited
      then visitNeighbors distance rest (insert neighbor visited, queue @ [(neighbor, distance + 1)])
      else visitNeighbors distance rest (visited, queue))"

text \<open>
  Every identifier that occurs in some neighbour collection, and the quantity that each
  round of a breadth-first loop decreases: two for every such identifier not yet visited,
  one for every queued pair.
\<close>

definition mentioned :: "SocialNetwork \<Rightarrow> int set" where
  "mentioned g = (\<Union>p \<in> set g. set (snd p))"

definition pending :: "int set \<Rightarrow> int set \<Rightarrow> (int \<times> int) list \<Rightarrow> nat" where
  "pending N visited queue = 2 * card (N - visited) + length queue"

lemma finite_mentioned: "finite (mentioned g)"
  by (simp add: mentioned_def)

lemma getFriends_mentioned: "set (getFriends g u) \<subseteq> mentioned g"
  by (force simp: getFriends_def mentioned_def split: option.splits dest: map_of_SomeD [OF sym])

lemma pending_insert:
  assumes "finite N" "n \<in> N" "n \<notin> visited"
  shows "pending N (insert n visited) (queue @ [p]) < pending N visited queue"
proof -
  have "N - insert n visited = (N - visited) - {n}" by auto
  moreover have "n \<in> N - visited" using assms by simp
  moreover have "finite (N - visited)" using assms by simp
  ultimately have "card (N - insert n visited) < card (N - visited)"
    using card_Diff1_less [of "N - visited" n] by simp
  then show ?thesis by (simp add: pending_def)
qed

lemma visitNeighbors_pending:
  "finite N \<Longrightarrow> set ns \<subseteq> N \<Longrightarrow> visitNeighbors d ns (visited, queue) = (visited', queue')
     \<Longrightarrow> pending N visited' queue' \<le> pending N visited queue"
proof (induction ns arbitrary: visited queue)
  case Nil
  then show ?case by simp
next
  case (Cons n ns)
  show ?case
  proof (cases "n \<in> visited")
    case True
    with Cons show ?thesis by simp
  next
    case False
    with Cons.prems
    have "visitNeighbors d ns (insert n visited, queue @ [(n, d + 1)]) = (visited', queue')"
      by simp
    with Cons
    have "pending N visited' queue' \<le> pending N (insert n visited) (queue @ [(n, d + 1)])"
      by simp
    moreover have "pending N (insert n visited) (queue @ [(n, d + 1)]) < pending N visited queue"
      using Cons.prems False by (intro pending_insert) auto
    ultimately show ?thesis by simp
  qed
qed

text \<open>
  The \<^verbatim>\<open>while (!queue.empty())\<close> loop of \<open>getNetworkDistance\<close>; the value after the
  loop is \<^verbatim>\<open>std::numeric_limits<int>::max()\<close>.
\<close>

function distanceLoop :: "SocialNetwork \<Rightarrow> int \<Rightarrow> int set \<Rightarrow> (int \<times> int) list \<Rightarrow> int" where
  "distanceLoop g userId2 visited [] = INT_MAX"
| "distanceLoop g userId2 visited ((currentUser, distance) # queue) =
     (if currentUser = userId2 then distance
      else case visitNeighbors distance (getFriends g currentUser) (visited, queue) of
             (visited', queue') \<Rightarrow> distanceLoop g userId2 visited' queue')"
  by pat_completeness auto
termination
proof (relation "measure (\<lambda>(g, userId2, visited, queue). pending (mentioned g) visited queue)")
  fix g :: SocialNetwork and userId2 currentUser distance :: int and visited x :: "int set"
    and queue y :: "(int \<times> int) list"
  assume "(x, y) = visitNeighbors distance (getFriends g currentUser) (visited, queue)"
  then have "visitNeighbors distance (getFriends g currentUser) (visited, queue) = (x, y)"
    by simp
  then have "pending (mentioned g) x y \<le> pending (mentioned g) visited queue"
    by (rule visitNeighbors_pending [OF finite_mentioned getFriends_mentioned])
  then show "((g, userId2, x, y), g, userId2, visited, (currentUser, distance) # queue)
       \<in> measure (\<lambda>(g, userId2, visited, queue). pending (mentioned g) visited queue)"
    by (simp add: pending_def)
qed simp

definition getNetworkDistance :: "SocialNetwork \<Rightarrow> int \<Rightarrow> int \<Rightarrow> int" where
  "getNetworkDistance g userId1 userId2 = distanceLoop g userId2 {userId1} [(userId1, 0)]"


section \<open>Recommendation by common friends\<close>

text \<open>
  \<open>potentialFriends\<close> is an \<^verbatim>\<open>unordered_map<int, int>\<close>, kept as an association list
  in the order in which its keys were first inserted. \<^verbatim>\<open>potentialFriends[k]++\<close> starts a
  missing count at 0. A count grows by at most one for every friend of \<open>userId\<close>.
\<close>

definition increment :: "int \<Rightarrow> (int \<times> int) list \<Rightarrow> (int \<times> int) list" where
  "increment k m = AList.update k ((case map_of m k of None \<Rightarrow> 0 | Some c \<Rightarrow> c) + 1) m"

fun tallyFriendsOfFriend ::
  "int \<Rightarrow> int list \<Rightarrow> int list \<Rightarrow> (int \<times> int) list \<Rightarrow> (int \<times> int) list" where
  "tallyFriendsOfFriend userId userFriends [] potentialFriends = potentialFriends"
| "tallyFriendsOfFriend userId userFriends (friendOfFriend # rest) potentialFriends =
     (if friendOfFriend = userId \<or> friendOfFriend \<in> set userFriends
      then tallyFriendsOfFriend userId userFriends rest potentialFriends
      else tallyFriendsOfFriend userId userFriends rest (increment friendOfFriend potentialFriends))"

fun tallyFriends ::
  "SocialNetwork \<Rightarrow> int \<Rightarrow> int list \<Rightarrow> int list \<Rightarrow> (int \<times> int) list \<Rightarrow> (int \<times> int) list" where
  "tallyFriends g userId userFriends [] potentialFriends = potentialFriends"
| "tallyFriends g userId userFriends (currentFriend # rest) potentialFriends =
     tallyFriends g userId userFriends rest
       (tallyFriendsOfFriend userId userFriends (getFriends g currentFriend) potentialFriends)"

text \<open>
  \<^verbatim>\<open>std::sort\<close> with the comparator \<^verbatim>\<open>a.second > b.second\<close> is a sort on the negated
  count. \<^verbatim>\<open>std::sort\<close> is not stable and the iteration order of the map is open, so the
  order among candidates of equal count is this model's choice; nothing below depends on it.
\<close>

definition recommendByCommonFriends :: "SocialNetwork \<Rightarrow> int \<Rightarrow> (int \<times> int) list" where
  "recommendByCommonFriends g userId =
     (let userFriends = getFriends g userId;
          potentialFriends = tallyFriends g userId userFriends userFriends []
      in sort_key (\<lambda>p. - snd p) potentialFriends)"


section \<open>Recommendation by network distance\<close>

text \<open>
  \<^verbatim>\<open>graph.at(userId)\<close> throws \<^verbatim>\<open>std::out_of_range\<close> for a missing key; it is the only
  call of the class that can throw. \<open>Undefined\<close> marks the places further down where the
  C++ standard gives the source no defined behaviour (an \<^verbatim>\<open>int\<close> out of range).
\<close>

datatype failure = OutOfRange | Undefined

definition graph_at :: "SocialNetwork \<Rightarrow> int \<Rightarrow> failure + int list" where
  "graph_at g userId = (case map_of g userId of None \<Rightarrow> Inl OutOfRange | Some s \<Rightarrow> Inr s)"

text \<open>
  The loop state of \<open>recommendByNetworkDistance\<close>: the map \<open>distances\<close> (an association
  list in first-insertion order), the set \<open>visited\<close> and the queue. The neighbour loop
  evaluates \<^verbatim>\<open>neighbor != userId && graph.at(userId).count(neighbor) == 0\<close> left to right,
  so \<open>at\<close> is called only for a newly visited neighbour other than \<open>userId\<close>.
\<close>

type_synonym bfs = "(int \<times> int) list \<times> int set \<times> (int \<times> int) list"

fun exploreNeighbors ::
  "SocialNetwork \<Rightarrow> int \<Rightarrow> int \<Rightarrow> int list \<Rightarrow> bfs \<Rightarrow> failure + bfs" where
  "exploreNeighbors g userId currentDistance [] st = Inr st"
| "exploreNeighbors g userId currentDistance (neighbor # rest) (distances, visited, queue) =
     (if neighbor \<notin> visited then
        let visited' = insert neighbor visited;
            queue' = queue @ [(neighbor, currentDistance + 1)]
        in if neighbor \<noteq> userId then
             (case graph_at g userId of
                Inl e \<Rightarrow> Inl e
              | Inr friends \<Rightarrow>
                  if neighbor \<notin> set friends
                  then exploreNeighbors g userId currentDistance rest
                         (AList.update neighbor (currentDistance + 1) distances, visited', queue')
                  else exploreNeighbors g userId currentDistance rest (distances, visited', queue'))
           else exploreNeighbors g userId currentDistance rest (distances, visited', queue')
      else exploreNeighbors g userId currentDistance rest (distances, visited, queue))"

lemma exploreNeighbors_pending:
  "finite N \<Longrightarrow> set ns \<subseteq> N \<Longrightarrow>
   exploreNeighbors g u d ns (distances, visited, queue) = Inr (distances', visited', queue')
     \<Longrightarrow> pending N visited' queue' \<le> pending N visited queue"
proof (induction ns arbitrary: distances visited queue)
  case Nil
  then show ?case by simp
next
  case (Cons n ns)
  show ?case
  proof (cases "n \<in> visited")
    case True
    with Cons show ?thesis by simp
  next
    case False
    from Cons.prems(3) False obtain ds where
      "exploreNeighbors g u d ns (ds, insert n visited, queue @ [(n, d + 1)])
         = Inr (distances', visited', queue')"
      by (auto simp: Let_def split: if_splits sum.splits)
    with Cons
    have "pending N visited' queue' \<le> pending N (insert n visited) (queue @ [(n, d + 1)])"
      by simp
    moreover have "pending N (insert n visited) (queue @ [(n, d + 1)]) < pending N visited queue"
      using Cons.prems False by (intro pending_insert) auto
    ultimately show ?thesis by simp
  qed
qed

text \<open>
  The \<^verbatim>\<open>while\<close> loop: the front pair is popped, then its distance is compared with
  \<open>maxDistance\<close> (\<^verbatim>\<open>break\<close> when greater), then its neighbours are explored.
\<close>

function distanceBfs :: "SocialNetwork \<Rightarrow> int \<Rightarrow> int \<Rightarrow> bfs \<Rightarrow> failure + bfs" where
  "distanceBfs g userId maxDistance (distances, visited, []) = Inr (distances, visited, [])"
| "distanceBfs g userId maxDistance (distances, visited, (currentUser, currentDistance) # queue) =
     (if currentDistance > maxDistance then Inr (distances, visited, queue)
      else case exploreNeighbors g userId currentDistance (getFriends g currentUser)
                  (distances, visited, queue) of
             Inl e \<Rightarrow> Inl e
           | Inr st \<Rightarrow> distanceBfs g userId maxDistance st)"
  by pat_completeness auto
termination
proof (relation "measure (\<lambda>(g, userId, maxDistance, distances, visited, queue).
      pending (mentioned g) visited queue)")
  fix g :: SocialNetwork and userId maxDistance currentUser currentDistance :: int
    and distances queue :: "(int \<times> int) list" and visited :: "int set" and b :: bfs
  assume e: "exploreNeighbors g userId currentDistance (getFriends g currentUser)
      (distances, visited, queue) = Inr b"
  obtain distances' visited' queue' where b: "b = (distances', visited', queue')"
    using prod_cases3 by blast
  have "pending (mentioned g) visited' queue' \<le> pending (mentioned g) visited queue"
    using e unfolding b by (rule exploreNeighbors_pending [OF finite_mentioned getFriends_mentioned])
  then show "((g, userId, maxDistance, b), g, userId, maxDistance, distances, visited,
        (currentUser, currentDistance) # queue)
      \<in> measure (\<lambda>(g, userId, maxDistance, distances, visited, queue).
           pending (mentioned g) visited queue)"
    by (simp add: b pending_def)
qed simp

text \<open>
  \<^verbatim>\<open>std::sort\<close> with the comparator \<^verbatim>\<open>a.second < b.second\<close>; as for the common-friends
  ranking, the order among equal distances is this model's choice.
\<close>

definition recommendByNetworkDistance ::
  "SocialNetwork \<Rightarrow> int \<Rightarrow> int \<Rightarrow> failure + (int \<times> int) list" where
  "recommendByNetworkDistance g userId maxDistance =
     (case distanceBfs g userId maxDistance ([], {userId}, [(userId, 0)]) of
        Inl e \<Rightarrow> Inl e
      | Inr (distances, visited, queue) \<Rightarrow> Inr (sort_key snd distances))"


section \<open>Advanced recommendation\<close>

text \<open>
  The inner loop \<^verbatim>\<open>for (int commonFriend : userFriends) if (getFriends(friendOfFriend).count(commonFriend)) commonFriends++;\<close>
\<close>

fun countCommonFriends :: "SocialNetwork \<Rightarrow> int \<Rightarrow> int list \<Rightarrow> int \<Rightarrow> int" where
  "countCommonFriends g friendOfFriend [] commonFriends = commonFriends"
| "countCommonFriends g friendOfFriend (commonFriend # rest) commonFriends =
     countCommonFriends g friendOfFriend rest
       (if commonFriend \<in> set (getFriends g friendOfFriend) then commonFriends + 1
        else commonFriends)"

text \<open>
  The score of one encounter,
  \<^verbatim>\<open>double score = (commonFriends * 2) + (1.0 / (networkDistance + 1));\<close>
  The two \<^verbatim>\<open>int\<close> operations have no defined result when they leave the range of
  \<^verbatim>\<open>int\<close> (in particular \<open>networkDistance + 1\<close> at the sentinel), which is the outcome
  \<open>Undefined\<close>. A \<^verbatim>\<open>double\<close> is a rational number, the conversion of an \<^verbatim>\<open>int\<close> is
  exact, and every floating-point division and addition yields \<open>rnd\<close> of the exact result:
  \<open>rnd\<close>, the rounding of the floating-point format, is a parameter of the model. The
  distance is never negative (\<open>getNetworkDistance_nonneg\<close> below), so the divisor is never 0.
\<close>

definition encounterScore ::
  "(rat \<Rightarrow> rat) \<Rightarrow> SocialNetwork \<Rightarrow> int \<Rightarrow> int list \<Rightarrow> int \<Rightarrow> failure + rat" where
  "encounterScore rnd g userId userFriends friendOfFriend =
     (let commonFriends = countCommonFriends g friendOfFriend userFriends 0;
          networkDistance = getNetworkDistance g userId friendOfFriend
      in if INT_MAX < commonFriends * 2 \<or> INT_MAX < networkDistance + 1 then Inl Undefined
         else Inr (rnd (of_int (commonFriends * 2) + rnd (1 / of_int (networkDistance + 1)))))"

text \<open>
  \<^verbatim>\<open>recommendationScores[friendOfFriend] += score\<close>; a missing entry starts at \<open>0.0\<close>.
\<close>

definition addScore :: "(rat \<Rightarrow> rat) \<Rightarrow> int \<Rightarrow> rat \<Rightarrow> (int \<times> rat) list \<Rightarrow> (int \<times> rat) list" where
  "addScore rnd k score m =
     AList.update k (rnd ((case map_of m k of None \<Rightarrow> 0 | Some v \<Rightarrow> v) + score)) m"

fun scoreFriendsOfFriend ::
  "(rat \<Rightarrow> rat) \<Rightarrow> SocialNetwork \<Rightarrow> int \<Rightarrow> int list \<Rightarrow> int list \<Rightarrow> (int \<times> rat) list
     \<Rightarrow> failure + (int \<times> rat) list" where
  "scoreFriendsOfFriend rnd g userId userFriends [] recommendationScores = Inr recommendationScores"
| "scoreFriendsOfFriend rnd g userId userFriends (friendOfFriend # rest) recommendationScores =
     (if friendOfFriend = userId \<or> friendOfFriend \<in> set userFriends
      then scoreFriendsOfFriend rnd g userId userFriends rest recommendationScores
      else case encounterScore rnd g userId userFriends friendOfFriend of
             Inl e \<Rightarrow> Inl e
           | Inr score \<Rightarrow>
               scoreFriendsOfFriend rnd g userId userFriends rest
                 (addScore rnd friendOfFriend score recommendationScores))"

fun scoreFriends ::
  "(rat \<Rightarrow> rat) \<Rightarrow> SocialNetwork \<Rightarrow> int \<Rightarrow> int list \<Rightarrow> int list \<Rightarrow> (int \<times> rat) list
     \<Rightarrow> failure + (int \<times> rat) list" where
  "scoreFriends rnd g userId userFriends [] recommendationScores = Inr recommendationScores"
| "scoreFriends rnd g userId userFriends (currentFriend # rest) recommendationScores =
     (case scoreFriendsOfFriend rnd g userId userFriends (getFriends g currentFriend)
             recommendationScores of
        Inl e \<Rightarrow> Inl e
      | Inr scores \<Rightarrow> scoreFriends rnd g userId userFriends rest scores)"

text \<open>
  \<^verbatim>\<open>static_cast<int>(pair.second)\<close> truncates towards zero; the conversion has no defined
  result when the truncated value is not an \<^verbatim>\<open>int\<close>.
\<close>

definition static_cast_int :: "rat \<Rightarrow> failure + int" where
  "static_cast_int x =
     (let t = (if 0 \<le> x then \<lfloor>x\<rfloor> else \<lceil>x\<rceil>)
      in if - INT_MAX - 1 \<le> t \<and> t \<le> INT_MAX then Inr t else Inl Undefined)"

fun castScores :: "(int \<times> rat) list \<Rightarrow> failure + (int \<times> int) list" where
  "castScores [] = Inr []"
| "castScores ((k, v) # rest) =
     (case static_cast_int v of
        Inl e \<Rightarrow> Inl e
      | Inr i \<Rightarrow> (case castScores rest of Inl e \<Rightarrow> Inl e | Inr r \<Rightarrow> Inr ((k, i) # r)))"

text \<open>The parameter \<open>maxDistance\<close> is accepted and not used, as in the source.\<close>

definition advancedRecommendation ::
  "(rat \<Rightarrow> rat) \<Rightarrow> SocialNetwork \<Rightarrow> int \<Rightarrow> int \<Rightarrow> failure + (int \<times> int) list" where
  "advancedRecommendation rnd g userId maxDistance =
     (let userFriends = getFriends g userId
      in case scoreFriends rnd g userId userFriends userFriends [] of
           Inl e \<Rightarrow> Inl e
         | Inr recommendationScores \<Rightarrow>
             (case castScores recommendationScores of
                Inl e \<Rightarrow> Inl e
              | Inr recommendations \<Rightarrow> Inr (sort_key (\<lambda>p. - snd p) recommendations)))"


section \<open>Paths and hop counts\<close>

text \<open>
  The notions the specification uses for \<open>getNetworkDistance\<close>. A path of \<open>n\<close> hops from
  \<open>a\<close> to \<open>b\<close> follows \<open>n\<close> neighbour entries; the path of no hops leads from every
  identifier to itself. An identifier is reachable from another when some path leads from the
  second to the first, and the shortest-path hop count is the least length of such a path. In a
  graph with mutual connections a path from \<open>a\<close> to \<open>b\<close> read backwards is a path from
  \<open>b\<close> to \<open>a\<close>.
\<close>

inductive walk :: "SocialNetwork \<Rightarrow> int \<Rightarrow> nat \<Rightarrow> int \<Rightarrow> bool" for g :: SocialNetwork and a :: int where
  walk_start: "walk g a 0 a"
| walk_step: "walk g a n x \<Longrightarrow> y \<in> set (getFriends g x) \<Longrightarrow> walk g a (Suc n) y"

definition reachable :: "SocialNetwork \<Rightarrow> int \<Rightarrow> int \<Rightarrow> bool" where
  "reachable g a b = (\<exists>n. walk g a n b)"

definition hops :: "SocialNetwork \<Rightarrow> int \<Rightarrow> int \<Rightarrow> nat" where
  "hops g a b = (LEAST n. walk g a n b)"

text \<open>
  The invariant of the loop of \<open>getNetworkDistance\<close> started at \<open>a\<close> with target \<open>t\<close>:
  every queued pair carries the hop count of its node; the queued distances ascend and span
  at most two levels; every visited node that is no longer queued has been compared with the
  target and has all its neighbours visited.
\<close>

definition labelled :: "SocialNetwork \<Rightarrow> int \<Rightarrow> int set \<Rightarrow> (int \<times> int) list \<Rightarrow> bool" where
  "labelled g a visited queue =
     (\<forall>p \<in> set queue. fst p \<in> visited \<and> 0 \<le> snd p \<and> walk g a (nat (snd p)) (fst p)
        \<and> (\<forall>m. walk g a m (fst p) \<longrightarrow> nat (snd p) \<le> m))"

definition levelled :: "(int \<times> int) list \<Rightarrow> bool" where
  "levelled queue =
     (sorted (map snd queue) \<and> (\<forall>p \<in> set queue. snd p \<le> snd (hd queue) + 1))"

definition settled :: "SocialNetwork \<Rightarrow> int \<Rightarrow> int set \<Rightarrow> (int \<times> int) list \<Rightarrow> bool" where
  "settled g t visited queue =
     (\<forall>x \<in> visited. x \<notin> fst ` set queue \<longrightarrow> x \<noteq> t \<and> set (getFriends g x) \<subseteq> visited)"

definition bfs_inv :: "SocialNetwork \<Rightarrow> int \<Rightarrow> int \<Rightarrow> int set \<Rightarrow> (int \<times> int) list \<Rightarrow> bool" where
  "bfs_inv g a t visited queue =
     (a \<in> visited \<and> labelled g a visited queue \<and> levelled queue \<and> settled g t visited queue)"


section \<open>Example graphs\<close>

text \<open>The path 1 - 2 - 3 - 4, built by the calls a driver makes.\<close>

definition chain :: SocialNetwork where
  "chain = addConnection (addConnection (addConnection [] 1 2) 2 3) 3 4"

text \<open>
  The graph of the commented-out demonstration in \<open>demonstrateSocialNetwork\<close>: users 1 to 6
  and the connections 1-2, 1-3, 2-4, 3-4, 3-5, 4-5, 4-6, added in that order.
\<close>

definition demo :: SocialNetwork where
  "demo = run [AddUser 1, AddUser 2, AddUser 3, AddUser 4, AddUser 5, AddUser 6,
     AddConnection 1 2, AddConnection 1 3, AddConnection 2 4, AddConnection 3 4,
     AddConnection 3 5, AddConnection 4 5, AddConnection 4 6] []"

text \<open>
  A graph built by \<open>addConnection\<close> calls alone: user 0 gets the friends \<open>1, \<dots>, n\<close>, and
  each of them is also connected to user \<open>-1\<close>.
\<close>

primrec crowd :: "nat \<Rightarrow> SocialNetwork" where
  "crowd 0 = []"
| "crowd (Suc n) = addConnection (addConnection (crowd n) 0 (int (Suc n))) (int (Suc n)) (- 1)"

text \<open>The score that \<open>recommendationScores\<close> holds for a key, \<open>0.0\<close> for a missing one.\<close>

definition stored :: "int \<Rightarrow> (int \<times> rat) list \<Rightarrow> rat" where
  "stored k m = (case map_of m k of None \<Rightarrow> 0 | Some v \<Rightarrow> v)"

lemmas build_defs =
  addConnection_def addUser_def contains_user_def subscript_def removeConnection_def

lemma chain_eq: "chain = [(1, [2]), (2, [3, 1]), (3, [4, 2]), (4, [3])]"
  by (simp add: chain_def build_defs)

lemma demo_eq:
  "demo = [(1, [3, 2]), (2, [4, 1]), (3, [5, 4, 1]), (4, [6, 5, 3, 2]), (5, [4, 3]), (6, [4])]"
  by (simp add: demo_def run_def build_defs)


section \<open>Mutations keep the graph symmetric\<close>

lemma getFriends_update:
  "getFriends (AList.update k v g) u = (if u = k then v else getFriends g u)"
  by (simp add: getFriends_def update_conv')

lemma subscript_getFriends: "subscript g u = getFriends g u"
  by (simp add: subscript_def getFriends_def split: option.splits)

lemma getFriends_addUser: "getFriends (addUser g u) v = getFriends g v"
  by (auto simp: addUser_def contains_user_def getFriends_update) (simp add: getFriends_def)

lemma getFriends_addConnection:
  "set (getFriends (addConnection g a b) u) =
     set (getFriends g u) \<union> (if u = a then {b} else {}) \<union> (if u = b then {a} else {})"
  by (auto simp: addConnection_def Let_def getFriends_update subscript_getFriends
      getFriends_addUser)

lemma getFriends_removeConnection:
  "contains_user g a \<Longrightarrow> contains_user g b \<Longrightarrow>
   set (getFriends (removeConnection g a b) u) =
     set (getFriends g u) - (if u = a then {b} else {}) - (if u = b then {a} else {})"
  by (auto simp: removeConnection_def Let_def getFriends_update subscript_getFriends)

lemma mutual_addUser: "mutual g \<Longrightarrow> mutual (addUser g u)"
  by (simp add: mutual_def getFriends_addUser)

lemma mutual_addConnection: "mutual g \<Longrightarrow> mutual (addConnection g a b)"
  unfolding mutual_def getFriends_addConnection by auto

lemma mutual_removeConnection:
  assumes "mutual g"
  shows "mutual (removeConnection g a b)"
proof (cases "contains_user g a \<and> contains_user g b")
  case True
  with assms show ?thesis
    unfolding mutual_def by (auto simp: getFriends_removeConnection)
next
  case False
  with assms show ?thesis by (auto simp: removeConnection_def)
qed

lemma mutual_mutate: "mutual g \<Longrightarrow> mutual (mutate m g)"
  by (cases m) (simp_all add: mutual_addUser mutual_addConnection mutual_removeConnection)

lemma mutual_run: "mutual g \<Longrightarrow> mutual (run ms g)"
  unfolding run_def by (induction ms arbitrary: g) (simp_all add: mutual_mutate)

lemma mutual_empty: "mutual []"
  by (simp add: mutual_def getFriends_def)

text \<open>
  C2. Starting from the empty graph, after any finite sequence of \<open>addUser\<close>,
  \<open>addConnection\<close> and \<open>removeConnection\<close> calls, \<open>b\<close> is a friend of \<open>a\<close> exactly
  when \<open>a\<close> is a friend of \<open>b\<close>. The sequence is arbitrary, so it may remove connections
  whose endpoints are absent.
\<close>

theorem mutuality_invariant:
  "(b \<in> set (getFriends (run ms []) a)) = (a \<in> set (getFriends (run ms []) b))"
  using mutual_run [OF mutual_empty, of ms] by (simp add: mutual_def)

theorem mutuality_invariant_witness:
  "(2 \<in> set (getFriends (run [AddConnection 1 2, RemoveConnection 1 7, RemoveConnection 9 8,
        AddUser 5, RemoveConnection 2 1, AddConnection 2 1] []) 1)) =
   (1 \<in> set (getFriends (run [AddConnection 1 2, RemoveConnection 1 7, RemoveConnection 9 8,
        AddUser 5, RemoveConnection 2 1, AddConnection 2 1] []) 2))"
  by (rule mutuality_invariant)


section \<open>Adding a connection twice\<close>

lemma addConnection_present:
  assumes "map_of g a = Some xs" "map_of g b = Some ys" "b \<in> set xs" "a \<in> set ys"
  shows "addConnection g a b = g"
proof -
  have u: "addUser g a = g" "addUser g b = g"
    using assms by (simp_all add: addUser_def contains_user_def)
  have "List.insert b (subscript g a) = xs"
    using assms by (simp add: subscript_def)
  then have 1: "AList.update a (List.insert b (subscript g a)) g = g"
    using assms by (simp add: update_triv)
  have "List.insert a (subscript g b) = ys"
    using assms by (simp add: subscript_def)
  then have 2: "AList.update b (List.insert a (subscript g b)) g = g"
    using assms by (simp add: update_triv)
  show ?thesis
    by (simp add: addConnection_def Let_def u 1 2)
qed

lemma addConnection_stored:
  "\<exists>xs ys. map_of (addConnection g a b) a = Some xs \<and> map_of (addConnection g a b) b = Some ys
     \<and> b \<in> set xs \<and> a \<in> set ys"
  by (auto simp: addConnection_def Let_def update_conv' subscript_def)

text \<open>
  C6. \<open>addConnection\<close> is idempotent: calling \<open>addConnection(a, b)\<close> twice in succession
  leaves the same graph state, and so the same neighbour set for every user, as calling it
  once.
\<close>

theorem addConnection_idempotent:
  "addConnection (addConnection g a b) a b = addConnection g a b
   \<and> set (getFriends (addConnection (addConnection g a b) a b) u)
       = set (getFriends (addConnection g a b) u)"
proof -
  obtain xs ys where "map_of (addConnection g a b) a = Some xs"
    "map_of (addConnection g a b) b = Some ys" "b \<in> set xs" "a \<in> set ys"
    using addConnection_stored by blast
  then have "addConnection (addConnection g a b) a b = addConnection g a b"
    by (rule addConnection_present)
  then show ?thesis by simp
qed

theorem addConnection_idempotent_witness:
  "addConnection (addConnection chain 1 3) 1 3 = addConnection chain 1 3
   \<and> set (getFriends (addConnection (addConnection chain 1 3) 1 3) 1)
       = set (getFriends (addConnection chain 1 3) 1)"
  by (rule addConnection_idempotent)


section \<open>Removing a connection between unknown users\<close>

text \<open>
  C7. If \<open>a\<close> or \<open>b\<close> is not a user of the graph, \<open>removeConnection(a, b)\<close> returns the
  graph state unchanged: no user is created and no neighbour set is modified. The function
  has no failing branch (its result is a graph, not an error), and it erases entries only in
  the branch where both users exist.
\<close>

theorem removeConnection_unknown:
  "\<not> contains_user g a \<or> \<not> contains_user g b \<Longrightarrow> removeConnection g a b = g"
  by (auto simp: removeConnection_def)

theorem removeConnection_unknown_witness:
  "contains_user chain 1 \<and> \<not> contains_user chain 7 \<and> removeConnection chain 1 7 = chain
   \<and> getTotalUsers (removeConnection chain 1 7) = 4"
proof -
  have h: "contains_user chain 1" "\<not> contains_user chain 7"
    by (simp_all add: chain_eq contains_user_def)
  have "dom (map_of chain) = {1, 2, 3, 4}"
    by (auto simp: chain_eq split: if_splits)
  then show ?thesis
    using h removeConnection_unknown [of chain 1 7] by (simp add: getTotalUsers_def)
qed


section \<open>Distance from a user to itself\<close>

text \<open>
  C10. For every identifier \<open>u\<close>, known to the graph or not, \<open>getNetworkDistance(u, u)\<close>
  is 0 and not the sentinel: the pair \<open>(u, 0)\<close> is dequeued and compared with the target
  before any neighbour is looked at.
\<close>

theorem getNetworkDistance_self:
  "getNetworkDistance g u u = 0 \<and> getNetworkDistance g u u \<noteq> INT_MAX"
  by (simp add: getNetworkDistance_def INT_MAX_def)

theorem getNetworkDistance_self_witness:
  "getNetworkDistance [] 7 7 = 0 \<and> getNetworkDistance [] 7 7 \<noteq> INT_MAX"
  by (rule getNetworkDistance_self)


section \<open>Common friends: exclusions and the demonstration graph\<close>

lemma perm2: "distinct xs \<Longrightarrow> set xs = {a, b} \<Longrightarrow> a \<noteq> b \<Longrightarrow> xs = [a, b] \<or> xs = [b, a]"
proof -
  assume d: "distinct xs" and s: "set xs = {a, b}" and n: "a \<noteq> b"
  then have "length xs = 2" using distinct_card [of xs] by simp
  then obtain x y where xs: "xs = [x, y]"
    by (auto simp: length_Suc_conv numeral_2_eq_2)
  with s d show ?thesis by (auto simp: doubleton_eq_iff)
qed

lemma perm3: "distinct xs \<Longrightarrow> set xs = {a, b, c} \<Longrightarrow> distinct [a, b, c] \<Longrightarrow>
   xs \<in> {[a, b, c], [a, c, b], [b, a, c], [b, c, a], [c, a, b], [c, b, a]}"
proof -
  assume d: "distinct xs" and s: "set xs = {a, b, c}" and n: "distinct [a, b, c]"
  then have "length xs = 3" using distinct_card [of xs] by simp
  then obtain x y z where xs: "xs = [x, y, z]"
    by (auto simp: length_Suc_conv numeral_3_eq_3)
  have "x \<in> {a, b, c}" "y \<in> {a, b, c}" "z \<in> {a, b, c}" using s xs by auto
  with d xs show ?thesis by auto
qed



lemma set_update_subset: "set (AList.update k v al) \<subseteq> insert (k, v) (set al)"
  by (induction al) auto

lemma increment_positive:
  assumes "\<forall>p \<in> set m. P (fst p) \<and> 0 < snd p" "P k"
  shows "\<forall>p \<in> set (increment k m). P (fst p) \<and> 0 < snd p"
proof
  fix p assume "p \<in> set (increment k m)"
  then have "p \<in> insert (k, (case map_of m k of None \<Rightarrow> 0 | Some c \<Rightarrow> c) + 1) (set m)"
    using set_update_subset [of k _ m] unfolding increment_def by blast
  then consider "p = (k, (case map_of m k of None \<Rightarrow> 0 | Some c \<Rightarrow> c) + 1)" | "p \<in> set m"
    by blast
  then show "P (fst p) \<and> 0 < snd p"
  proof cases
    case 1
    have "0 \<le> (case map_of m k of None \<Rightarrow> 0 | Some c \<Rightarrow> c)"
    proof (cases "map_of m k")
      case None
      then show ?thesis by simp
    next
      case (Some c)
      then have "(k, c) \<in> set m" by (rule map_of_SomeD)
      with assms(1) have "0 < c" by fastforce
      with Some show ?thesis by simp
    qed
    with 1 assms(2) show ?thesis by simp
  next
    case 2
    with assms(1) show ?thesis by blast
  qed
qed


lemma tallyFriendsOfFriend_positive:
  "\<forall>p \<in> set pf. (fst p \<noteq> u \<and> fst p \<notin> set fs) \<and> 0 < snd p \<Longrightarrow>
   \<forall>p \<in> set (tallyFriendsOfFriend u fs ns pf). (fst p \<noteq> u \<and> fst p \<notin> set fs) \<and> 0 < snd p"
proof (induction ns arbitrary: pf)
  case Nil
  then show ?case by simp
next
  case (Cons n ns)
  show ?case
  proof (cases "n = u \<or> n \<in> set fs")
    case True
    then have "tallyFriendsOfFriend u fs (n # ns) pf = tallyFriendsOfFriend u fs ns pf"
      by simp
    with Cons.IH [OF Cons.prems] show ?thesis by (simp only:)
  next
    case False
    then have "n \<noteq> u \<and> n \<notin> set fs" by simp
    with Cons.prems
    have "\<forall>p \<in> set (increment n pf). (fst p \<noteq> u \<and> fst p \<notin> set fs) \<and> 0 < snd p"
      by (rule increment_positive)
    then have "\<forall>p \<in> set (tallyFriendsOfFriend u fs ns (increment n pf)).
        (fst p \<noteq> u \<and> fst p \<notin> set fs) \<and> 0 < snd p"
      by (rule Cons.IH)
    moreover from False
    have "tallyFriendsOfFriend u fs (n # ns) pf = tallyFriendsOfFriend u fs ns (increment n pf)"
      by simp
    ultimately show ?thesis by (simp only:)
  qed
qed

lemma tallyFriends_positive:
  "\<forall>p \<in> set pf. (fst p \<noteq> u \<and> fst p \<notin> set fs) \<and> 0 < snd p \<Longrightarrow>
   \<forall>p \<in> set (tallyFriends g u fs cs pf). (fst p \<noteq> u \<and> fst p \<notin> set fs) \<and> 0 < snd p"
proof (induction cs arbitrary: pf)
  case Nil
  then show ?case by simp
next
  case (Cons c cs)
  have "\<forall>p \<in> set (tallyFriendsOfFriend u fs (getFriends g c) pf).
      (fst p \<noteq> u \<and> fst p \<notin> set fs) \<and> 0 < snd p"
    using Cons.prems by (rule tallyFriendsOfFriend_positive)
  then have "\<forall>p \<in> set (tallyFriends g u fs cs (tallyFriendsOfFriend u fs (getFriends g c) pf)).
      (fst p \<noteq> u \<and> fst p \<notin> set fs) \<and> 0 < snd p"
    by (rule Cons.IH)
  then show ?case by (simp only: tallyFriends.simps)
qed

lemma increment_keys:
  assumes "\<forall>p \<in> set m. Q (fst p)" "Q k"
  shows "\<forall>p \<in> set (increment k m). Q (fst p)"
proof
  fix p assume "p \<in> set (increment k m)"
  then have "p \<in> insert (k, (case map_of m k of None \<Rightarrow> 0 | Some c \<Rightarrow> c) + 1) (set m)"
    using set_update_subset [of k _ m] unfolding increment_def by blast
  then consider "p = (k, (case map_of m k of None \<Rightarrow> 0 | Some c \<Rightarrow> c) + 1)" | "p \<in> set m"
    by blast
  then show "Q (fst p)"
  proof cases
    case 1
    with assms(2) show ?thesis by simp
  next
    case 2
    with assms(1) show ?thesis by (rule bspec)
  qed
qed

lemma tallyFriendsOfFriend_keys:
  "\<forall>p \<in> set pf. Q (fst p) \<Longrightarrow> \<forall>n \<in> set ns. Q n \<Longrightarrow>
   \<forall>p \<in> set (tallyFriendsOfFriend u fs ns pf). Q (fst p)"
proof (induction ns arbitrary: pf)
  case Nil
  then show ?case by simp
next
  case (Cons n ns)
  from Cons.prems(2) have n: "Q n" and ns: "\<forall>n \<in> set ns. Q n" by simp_all
  show ?case
  proof (cases "n = u \<or> n \<in> set fs")
    case True
    then have "tallyFriendsOfFriend u fs (n # ns) pf = tallyFriendsOfFriend u fs ns pf"
      by simp
    with Cons.IH [OF Cons.prems(1) ns] show ?thesis by (simp only:)
  next
    case False
    from Cons.prems(1) n have "\<forall>p \<in> set (increment n pf). Q (fst p)"
      by (rule increment_keys)
    then have "\<forall>p \<in> set (tallyFriendsOfFriend u fs ns (increment n pf)). Q (fst p)"
      using ns by (rule Cons.IH)
    moreover from False
    have "tallyFriendsOfFriend u fs (n # ns) pf = tallyFriendsOfFriend u fs ns (increment n pf)"
      by simp
    ultimately show ?thesis by (simp only:)
  qed
qed

lemma tallyFriends_keys:
  "\<forall>p \<in> set pf. Q (fst p) \<Longrightarrow> \<forall>c \<in> set cs. \<forall>n \<in> set (getFriends g c). Q n \<Longrightarrow>
   \<forall>p \<in> set (tallyFriends g u fs cs pf). Q (fst p)"
proof (induction cs arbitrary: pf)
  case Nil
  then show ?case by simp
next
  case (Cons c cs)
  from Cons.prems(2) have c: "\<forall>n \<in> set (getFriends g c). Q n"
    and cs: "\<forall>c \<in> set cs. \<forall>n \<in> set (getFriends g c). Q n"
    by simp_all
  have "\<forall>p \<in> set (tallyFriendsOfFriend u fs (getFriends g c) pf). Q (fst p)"
    using Cons.prems(1) c by (rule tallyFriendsOfFriend_keys)
  then have "\<forall>p \<in> set (tallyFriends g u fs cs (tallyFriendsOfFriend u fs (getFriends g c) pf)).
      Q (fst p)"
    using cs by (rule Cons.IH)
  then show ?case by (simp only: tallyFriends.simps)
qed

text \<open>
  C3. The result of \<open>recommendByCommonFriends(u)\<close> never contains \<open>u\<close> itself, never
  contains a direct friend of \<open>u\<close>, and every candidate in it has a strictly positive count
  and is reached by a two-hop path: it is a neighbour of some friend of \<open>u\<close>. A candidate
  without such a path never appears.
\<close>

theorem recommendByCommonFriends_excludes:
  "(c, n) \<in> set (recommendByCommonFriends g u) \<Longrightarrow>
     c \<noteq> u \<and> c \<notin> set (getFriends g u) \<and> 0 < n
     \<and> (\<exists>f \<in> set (getFriends g u). c \<in> set (getFriends g f))"
proof -
  assume "(c, n) \<in> set (recommendByCommonFriends g u)"
  then have in_tally: "(c, n) \<in> set (tallyFriends g u (getFriends g u) (getFriends g u) [])"
    by (simp add: recommendByCommonFriends_def Let_def)
  have "\<forall>p \<in> set (tallyFriends g u (getFriends g u) (getFriends g u) []).
      (fst p \<noteq> u \<and> fst p \<notin> set (getFriends g u)) \<and> 0 < snd p"
    by (rule tallyFriends_positive) simp
  with in_tally
  have "(fst (c, n) \<noteq> u \<and> fst (c, n) \<notin> set (getFriends g u)) \<and> 0 < snd (c, n)"
    by (rule bspec [rotated])
  then have 1: "c \<noteq> u \<and> c \<notin> set (getFriends g u) \<and> 0 < n" by simp
  have "\<forall>p \<in> set (tallyFriends g u (getFriends g u) (getFriends g u) []).
      (\<exists>f \<in> set (getFriends g u). fst p \<in> set (getFriends g f))"
  proof (rule tallyFriends_keys)
    show "\<forall>p \<in> set ([] :: (int \<times> int) list).
        \<exists>f \<in> set (getFriends g u). fst p \<in> set (getFriends g f)"
      by simp
    show "\<forall>c \<in> set (getFriends g u). \<forall>n \<in> set (getFriends g c).
        \<exists>f \<in> set (getFriends g u). n \<in> set (getFriends g f)"
      by (intro ballI bexI)
  qed
  with in_tally have "\<exists>f \<in> set (getFriends g u). fst (c, n) \<in> set (getFriends g f)"
    by (rule bspec [rotated])
  with 1 show ?thesis by simp
qed

theorem recommendByCommonFriends_excludes_witness:
  "(4, 2) \<in> set (recommendByCommonFriends demo 1) \<and>
     (4::int) \<noteq> 1 \<and> 4 \<notin> set (getFriends demo 1) \<and> (0::int) < 2
     \<and> (\<exists>f \<in> set (getFriends demo 1). 4 \<in> set (getFriends demo f))"
proof -
  have h: "(4, 2) \<in> set (recommendByCommonFriends demo 1)"
    by (simp add: demo_eq recommendByCommonFriends_def getFriends_def increment_def)
  show ?thesis using h recommendByCommonFriends_excludes [OF h] by simp
qed


text \<open>
  C4. In the graph with users 1 to 6 and edges 1-2, 1-3, 2-4, 3-4, 3-5, 4-5, 4-6,
  \<open>recommendByCommonFriends(1)\<close> gives candidate 4 the count 2 and candidate 5 the count 1,
  and returns candidate 4 before candidate 5; these two are the whole result. The graph is
  given by its neighbour sets, so the statement covers every iteration order of the sets.
\<close>

theorem recommendByCommonFriends_scenario:
  assumes "distinct (getFriends g 1)" "set (getFriends g 1) = {2, 3}"
    and "distinct (getFriends g 2)" "set (getFriends g 2) = {1, 4}"
    and "distinct (getFriends g 3)" "set (getFriends g 3) = {1, 4, 5}"
    and "set (getFriends g 4) = {2, 3, 5, 6}" "set (getFriends g 5) = {3, 4}"
    and "set (getFriends g 6) = {4}"
  shows "recommendByCommonFriends g 1 = [(4, 2), (5, 1)]"
proof -
  define fs where "fs = getFriends g 1"
  have fs: "set fs = {2, 3}" using assms(2) by (simp add: fs_def)
  have 1: "fs = [2, 3] \<or> fs = [3, 2]"
    using assms(1,2) unfolding fs_def by (intro perm2) simp_all
  have "getFriends g 2 = [1, 4] \<or> getFriends g 2 = [4, 1]"
    using assms(3,4) by (intro perm2) simp_all
  then have 2: "tallyFriendsOfFriend 1 fs (getFriends g 2) pf = increment 4 pf" for pf
    using fs by (elim disjE) simp_all
  have "getFriends g 3 \<in> {[1, 4, 5], [1, 5, 4], [4, 1, 5], [4, 5, 1], [5, 1, 4], [5, 4, 1]}"
    using assms(5,6) by (intro perm3) simp_all
  then have 3: "tallyFriendsOfFriend 1 fs (getFriends g 3) pf = increment 5 (increment 4 pf)
      \<or> tallyFriendsOfFriend 1 fs (getFriends g 3) pf = increment 4 (increment 5 pf)" for pf
    using fs by (elim insertE emptyE) simp_all
  have "tallyFriends g 1 fs fs [] = [(4, 2), (5, 1)] \<or> tallyFriends g 1 fs fs [] = [(5, 1), (4, 2)]"
  proof -
    consider "fs = [2, 3]" | "fs = [3, 2]" using 1 by blast
    then show ?thesis
    proof cases
      case 1
      have "tallyFriends g 1 fs [2, 3] [] = tallyFriendsOfFriend 1 fs (getFriends g 3) (increment 4 [])"
        by (simp add: 2)
      with 3 [of "increment 4 []"] 1 show ?thesis
        by (auto simp: increment_def)
    next
      case 2
      have "tallyFriends g 1 fs [3, 2] [] = increment 4 (tallyFriendsOfFriend 1 fs (getFriends g 3) [])"
        by (simp add: \<open>\<And>pf. tallyFriendsOfFriend 1 fs (getFriends g 2) pf = increment 4 pf\<close>)
      with 3 [of "[]"] 2 show ?thesis
        by (auto simp: increment_def)
    qed
  qed
  then show ?thesis
    unfolding recommendByCommonFriends_def Let_def fs_def [symmetric] by (elim disjE) simp_all
qed


lemma demo_friends:
  "getFriends demo 1 = [3, 2]" "getFriends demo 2 = [4, 1]" "getFriends demo 3 = [5, 4, 1]"
  "getFriends demo 4 = [6, 5, 3, 2]" "getFriends demo 5 = [4, 3]" "getFriends demo 6 = [4]"
  by (simp_all add: demo_eq getFriends_def)

lemma demo_neighbours:
  "set (getFriends demo 1) = {2, 3}" "set (getFriends demo 2) = {1, 4}"
  "set (getFriends demo 3) = {1, 4, 5}" "set (getFriends demo 4) = {2, 3, 5, 6}"
  "set (getFriends demo 5) = {3, 4}" "set (getFriends demo 6) = {4}"
  unfolding demo_friends by (simp_all add: insert_commute)

lemma demo_distinct:
  "distinct (getFriends demo 1)" "distinct (getFriends demo 2)" "distinct (getFriends demo 3)"
  unfolding demo_friends by simp_all

theorem recommendByCommonFriends_scenario_witness:
  "set (getFriends demo 1) = {2, 3} \<and> set (getFriends demo 2) = {1, 4}
   \<and> set (getFriends demo 3) = {1, 4, 5} \<and> recommendByCommonFriends demo 1 = [(4, 2), (5, 1)]"
  using demo_neighbours(1,2,3) recommendByCommonFriends_scenario
      [OF demo_distinct(1) demo_neighbours(1) demo_distinct(2) demo_neighbours(2)
          demo_distinct(3) demo_neighbours(3) demo_neighbours(4) demo_neighbours(5)
          demo_neighbours(6)]
  by (simp only: simp_thms)


section \<open>Network distance: totality\<close>

lemma graph_at_known: "contains_user g u \<Longrightarrow> graph_at g u = Inr (getFriends g u)"
  by (auto simp: contains_user_def graph_at_def getFriends_def)

lemma exploreNeighbors_known:
  "contains_user g u \<Longrightarrow> \<exists>st'. exploreNeighbors g u d ns st = Inr st'"
proof (induction ns arbitrary: st)
  case Nil
  show ?case by (cases st rule: prod_cases3) simp
next
  case (Cons n ns)
  obtain distances visited queue where st: "st = (distances, visited, queue)"
    using prod_cases3 by blast
  show ?case
    unfolding st using Cons.IH [OF Cons.prems] graph_at_known [OF Cons.prems]
    by (simp add: Let_def)
qed

lemma distanceBfs_known:
  "contains_user g u \<Longrightarrow> \<exists>st'. distanceBfs g u md st = Inr st'"
proof (induction g u md st rule: distanceBfs.induct)
  case (1 g userId maxDistance distances visited)
  then show ?case by simp
next
  case (2 g userId maxDistance distances visited currentUser currentDistance queue)
  show ?case
  proof (cases "currentDistance > maxDistance")
    case True
    then show ?thesis by simp
  next
    case False
    obtain st' where e: "exploreNeighbors g userId currentDistance (getFriends g currentUser)
        (distances, visited, queue) = Inr st'"
      using exploreNeighbors_known [OF "2.prems"] by blast
    from "2.IH" [OF False e "2.prems"] False e show ?thesis by simp
  qed
qed

lemma getFriends_unknown: "\<not> contains_user g u \<Longrightarrow> getFriends g u = []"
  by (simp add: contains_user_def getFriends_def)

lemma recommendByNetworkDistance_unknown:
  "\<not> contains_user g u \<Longrightarrow> recommendByNetworkDistance g u md = Inr []"
  by (simp add: recommendByNetworkDistance_def getFriends_unknown)

text \<open>
  C9. \<open>recommendByNetworkDistance\<close> returns a result and never throws, for every graph,
  user and bound. The \<open>at\<close> lookup runs only when a dequeued node has a neighbour; for a
  \<open>userId\<close> unknown to the graph only \<open>userId\<close> is dequeued, it has no neighbours, and
  the result is the empty sequence.
\<close>

theorem recommendByNetworkDistance_total:
  "(\<exists>res. recommendByNetworkDistance g u md = Inr res)
   \<and> (\<not> contains_user g u \<longrightarrow> recommendByNetworkDistance g u md = Inr [])"
proof (cases "contains_user g u")
  case True
  then obtain st' where "distanceBfs g u md ([], {u}, [(u, 0)]) = Inr st'"
    using distanceBfs_known by blast
  with True show ?thesis
    by (cases st' rule: prod_cases3) (simp add: recommendByNetworkDistance_def)
next
  case False
  then show ?thesis by (simp add: recommendByNetworkDistance_unknown)
qed

theorem recommendByNetworkDistance_total_witness:
  "\<not> contains_user chain 7 \<and> recommendByNetworkDistance chain 7 2 = Inr []
   \<and> recommendByNetworkDistance chain 2 1 = Inr [(4, 2)]"
proof -
  have h: "\<not> contains_user chain 7" by (simp add: chain_eq contains_user_def)
  have "recommendByNetworkDistance chain 2 1 = Inr [(4, 2)]"
    by (simp add: recommendByNetworkDistance_def chain_eq getFriends_def graph_at_def Let_def)
  with h recommendByNetworkDistance_total [of chain 7 2] show ?thesis by simp
qed


section \<open>Network distance: the recorded distances and the bound\<close>

lemma singleton_list: "distinct xs \<Longrightarrow> set xs = {a} \<Longrightarrow> xs = [a]"
proof -
  assume d: "distinct xs" and s: "set xs = {a}"
  then have "length xs = 1" using distinct_card [of xs] by simp
  then obtain x where "xs = [x]" by (auto simp: length_Suc_conv)
  with s show ?thesis by simp
qed

lemma friends_contains_user: "getFriends g u \<noteq> [] \<Longrightarrow> contains_user g u"
  by (cases "map_of g u") (simp_all add: contains_user_def getFriends_def)

text \<open>
  C1 states that every candidate returned by \<open>recommendByNetworkDistance(u, maxDistance)\<close>
  has a recorded distance of at most \<open>maxDistance\<close>, and that on the path 1-2-3-4 the call
  \<open>recommendByNetworkDistance(1, 2)\<close> returns the single pair \<open>(3, 2)\<close>. The loop compares
  the distance of the dequeued node with \<open>maxDistance\<close>, not the distance it records for
  the neighbours: node 3, dequeued at distance 2, still records node 4 at distance 3. For
  every iteration order of the neighbour sets of the path the result is \<open>(3, 2)\<close> followed
  by \<open>(4, 3)\<close>.
\<close>

theorem recommendByNetworkDistance_beyond_bound:
  assumes "distinct (getFriends g 1)" "set (getFriends g 1) = {2}"
    and "distinct (getFriends g 2)" "set (getFriends g 2) = {1, 3}"
    and "distinct (getFriends g 3)" "set (getFriends g 3) = {2, 4}"
    and "distinct (getFriends g 4)" "set (getFriends g 4) = {3}"
  shows "recommendByNetworkDistance g 1 2 = Inr [(3, 2), (4, 3)]"
proof -
  have 1: "getFriends g 1 = [2]" using assms(1,2) by (rule singleton_list)
  then have "contains_user g 1" by (intro friends_contains_user) simp
  then have at: "graph_at g 1 = Inr [2]" using 1 by (simp add: graph_at_known)
  have 4: "getFriends g 4 = [3]" using assms(7,8) by (rule singleton_list)
  have 2: "getFriends g 2 = [1, 3] \<or> getFriends g 2 = [3, 1]"
    using assms(3,4) by (intro perm2) simp_all
  have 3: "getFriends g 3 = [2, 4] \<or> getFriends g 3 = [4, 2]"
    using assms(5,6) by (intro perm2) simp_all
  from 2 3 show ?thesis
    by (elim disjE) (simp_all add: recommendByNetworkDistance_def 1 4 at Let_def)
qed

lemma chain_friends:
  "getFriends chain 1 = [2]" "getFriends chain 2 = [3, 1]" "getFriends chain 3 = [4, 2]"
  "getFriends chain 4 = [3]"
  by (simp_all add: chain_eq getFriends_def)

lemma chain_neighbours:
  "set (getFriends chain 1) = {2}" "set (getFriends chain 2) = {1, 3}"
  "set (getFriends chain 3) = {2, 4}" "set (getFriends chain 4) = {3}"
  unfolding chain_friends by (simp_all add: insert_commute)

lemma chain_distinct:
  "distinct (getFriends chain 1)" "distinct (getFriends chain 2)"
  "distinct (getFriends chain 3)" "distinct (getFriends chain 4)"
  unfolding chain_friends by simp_all

theorem recommendByNetworkDistance_beyond_bound_witness:
  "set (getFriends chain 1) = {2} \<and> set (getFriends chain 2) = {1, 3}
   \<and> set (getFriends chain 3) = {2, 4} \<and> set (getFriends chain 4) = {3}
   \<and> recommendByNetworkDistance chain 1 2 = Inr [(3, 2), (4, 3)]"
  using chain_neighbours recommendByNetworkDistance_beyond_bound
      [OF chain_distinct(1) chain_neighbours(1) chain_distinct(2) chain_neighbours(2)
          chain_distinct(3) chain_neighbours(3) chain_distinct(4) chain_neighbours(4)]
  by (simp only: simp_thms)


text \<open>
  What the loop does guarantee: a neighbour is recorded only from a node whose own distance
  passed the guard, so no recorded distance exceeds \<open>maxDistance + 1\<close>.
\<close>

lemma exploreNeighbors_new:
  assumes "n \<notin> visited"
    and "exploreNeighbors g u d (n # ns) (distances, visited, queue) = Inr st'"
  shows "\<exists>ds. (ds = distances \<or> ds = AList.update n (d + 1) distances)
     \<and> exploreNeighbors g u d ns (ds, insert n visited, queue @ [(n, d + 1)]) = Inr st'"
proof (cases "n \<noteq> u")
  case False
  with assms
  have "exploreNeighbors g u d ns (distances, insert n visited, queue @ [(n, d + 1)]) = Inr st'"
    by (simp add: Let_def)
  then show ?thesis by (intro exI [of _ distances]) simp
next
  case True
  show ?thesis
  proof (cases "graph_at g u")
    case (Inl e)
    with assms True show ?thesis by (simp add: Let_def)
  next
    case (Inr friends)
    show ?thesis
    proof (cases "n \<in> set friends")
      case True
      with assms \<open>n \<noteq> u\<close> Inr
      have "exploreNeighbors g u d ns (distances, insert n visited, queue @ [(n, d + 1)]) = Inr st'"
        by (simp add: Let_def)
      then show ?thesis by (intro exI [of _ distances]) simp
    next
      case False
      with assms \<open>n \<noteq> u\<close> Inr
      have "exploreNeighbors g u d ns
          (AList.update n (d + 1) distances, insert n visited, queue @ [(n, d + 1)]) = Inr st'"
        by (simp add: Let_def)
      then show ?thesis by (intro exI [of _ "AList.update n (d + 1) distances"]) simp
    qed
  qed
qed


lemma exploreNeighbors_bound:
  "d \<le> md \<Longrightarrow> \<forall>p \<in> set distances. snd p \<le> md + 1 \<Longrightarrow>
   exploreNeighbors g u d ns (distances, visited, queue) = Inr (distances', visited', queue') \<Longrightarrow>
   \<forall>p \<in> set distances'. snd p \<le> md + 1"
proof (induction ns arbitrary: distances visited queue)
  case Nil
  from Nil.prems(3) have "distances' = distances" by simp
  with Nil.prems(2) show ?case by simp
next
  case (Cons n ns)
  show ?case
  proof (cases "n \<in> visited")
    case True
    with Cons.prems(3)
    have "exploreNeighbors g u d ns (distances, visited, queue) = Inr (distances', visited', queue')"
      by simp
    with Cons.prems(1,2) show ?thesis by (rule Cons.IH)
  next
    case False
    from exploreNeighbors_new [OF False Cons.prems(3)] obtain ds where
      ds: "ds = distances \<or> ds = AList.update n (d + 1) distances"
      and e: "exploreNeighbors g u d ns (ds, insert n visited, queue @ [(n, d + 1)])
         = Inr (distances', visited', queue')"
      by (elim exE conjE)
    have "\<forall>p \<in> set (AList.update n (d + 1) distances). snd p \<le> md + 1"
    proof
      fix p assume "p \<in> set (AList.update n (d + 1) distances)"
      then have "p \<in> insert (n, d + 1) (set distances)"
        using set_update_subset [of n "d + 1" distances] by (rule rev_subsetD)
      then consider "p = (n, d + 1)" | "p \<in> set distances" by blast
      then show "snd p \<le> md + 1"
      proof cases
        case 1
        with Cons.prems(1) show ?thesis by simp
      next
        case 2
        with Cons.prems(2) show ?thesis by (rule bspec)
      qed
    qed
    with ds Cons.prems(2) have "\<forall>p \<in> set ds. snd p \<le> md + 1" by (elim disjE) simp_all
    with Cons.prems(1) show ?thesis using e by (rule Cons.IH)
  qed
qed


lemma distanceBfs_bound:
  "\<forall>p \<in> set (fst st). snd p \<le> md + 1 \<Longrightarrow> distanceBfs g u md st = Inr st' \<Longrightarrow>
   \<forall>p \<in> set (fst st'). snd p \<le> md + 1"
proof (induction g u md st rule: distanceBfs.induct)
  case (1 g userId maxDistance distances visited)
  from "1.prems"(2) have "st' = (distances, visited, [])" by simp
  with "1.prems"(1) show ?case by simp
next
  case (2 g userId maxDistance distances visited currentUser currentDistance queue)
  show ?case
  proof (cases "currentDistance > maxDistance")
    case True
    with "2.prems"(2) have "st' = (distances, visited, queue)" by simp
    with "2.prems"(1) show ?thesis by simp
  next
    case False
    with "2.prems"(2) obtain st1 where
      e: "exploreNeighbors g userId currentDistance (getFriends g currentUser)
            (distances, visited, queue) = Inr st1"
      and r: "distanceBfs g userId maxDistance st1 = Inr st'"
      by (cases "exploreNeighbors g userId currentDistance (getFriends g currentUser)
            (distances, visited, queue)") simp_all
    obtain ds1 v1 q1 where st1: "st1 = (ds1, v1, q1)" using prod_cases3 by blast
    from False have le: "currentDistance \<le> maxDistance" by simp
    from "2.prems"(1) have old: "\<forall>p \<in> set distances. snd p \<le> maxDistance + 1" by simp
    have "\<forall>p \<in> set ds1. snd p \<le> maxDistance + 1"
      using le old e [unfolded st1] by (rule exploreNeighbors_bound)
    then have "\<forall>p \<in> set (fst st1). snd p \<le> maxDistance + 1" by (simp add: st1)
    from "2.IH" [OF False e this r] show ?thesis .
  qed
qed


lemma recommendByNetworkDistance_bound:
  assumes "recommendByNetworkDistance g u md = Inr res" "(c, d) \<in> set res"
  shows "d \<le> md + 1"
proof -
  obtain st' where b: "distanceBfs g u md ([], {u}, [(u, 0)]) = Inr st'"
    using assms(1)
    by (cases "distanceBfs g u md ([], {u}, [(u, 0)])")
      (simp_all add: recommendByNetworkDistance_def)
  obtain ds v q where st': "st' = (ds, v, q)" using prod_cases3 by blast
  from assms(1) [unfolded recommendByNetworkDistance_def b st']
  have res: "res = sort_key snd ds" by simp
  have "\<forall>p \<in> set (fst ([] :: (int \<times> int) list, {u}, [(u, 0 :: int)])). snd p \<le> md + 1"
    by simp
  then have "\<forall>p \<in> set (fst st'). snd p \<le> md + 1"
    using b by (rule distanceBfs_bound)
  moreover from assms(2) have "(c, d) \<in> set (fst st')" by (simp add: res st')
  ultimately have "snd (c, d) \<le> md + 1" by (rule bspec)
  then show ?thesis by simp
qed


section \<open>Advanced recommendation: scores are not negative\<close>

lemma floors: "\<lfloor>26 / 3 :: rat\<rfloor> = 8" "\<lfloor>7 / 3 :: rat\<rfloor> = 2"
  by linarith+

lemma countCommonFriends_mono: "c \<le> countCommonFriends g f xs c"
proof (induction xs arbitrary: c)
  case Nil
  show ?case by simp
next
  case (Cons x xs)
  have "c \<le> (if x \<in> set (getFriends g f) then c + 1 else c)" by simp
  also have "\<dots> \<le> countCommonFriends g f xs (if x \<in> set (getFriends g f) then c + 1 else c)"
    by (rule Cons.IH)
  finally show ?case by simp
qed

lemma visitNeighbors_nonneg:
  "0 \<le> d \<Longrightarrow> \<forall>p \<in> set queue. 0 \<le> snd p \<Longrightarrow>
   visitNeighbors d ns (visited, queue) = (visited', queue') \<Longrightarrow> \<forall>p \<in> set queue'. 0 \<le> snd p"
proof (induction ns arbitrary: visited queue)
  case Nil
  then show ?case by simp
next
  case (Cons n ns)
  show ?case
  proof (cases "n \<in> visited")
    case True
    with Cons.prems Cons.IH [of queue visited] show ?thesis by simp
  next
    case False
    with Cons.prems(3)
    have "visitNeighbors d ns (insert n visited, queue @ [(n, d + 1)]) = (visited', queue')"
      by simp
    moreover have "\<forall>p \<in> set (queue @ [(n, d + 1)]). 0 \<le> snd p"
      using Cons.prems(1,2) by simp
    ultimately show ?thesis using Cons.IH Cons.prems(1) by blast
  qed
qed

lemma distanceLoop_nonneg:
  "\<forall>p \<in> set queue. 0 \<le> snd p \<Longrightarrow> 0 \<le> distanceLoop g t visited queue"
proof (induction g t visited queue rule: distanceLoop.induct)
  case (1 g userId2 visited)
  then show ?case by (simp add: INT_MAX_def)
next
  case (2 g userId2 visited currentUser distance queue)
  show ?case
  proof (cases "currentUser = userId2")
    case True
    with "2.prems" show ?thesis by simp
  next
    case False
    obtain visited' queue' where
      v: "visitNeighbors distance (getFriends g currentUser) (visited, queue) = (visited', queue')"
      by (cases "visitNeighbors distance (getFriends g currentUser) (visited, queue)")
    have "\<forall>p \<in> set queue'. 0 \<le> snd p"
      using "2.prems" by (intro visitNeighbors_nonneg [OF _ _ v]) simp_all
    with "2.IH" [OF False v [symmetric]] False v show ?thesis by simp
  qed
qed

lemma getNetworkDistance_nonneg: "0 \<le> getNetworkDistance g a b"
  unfolding getNetworkDistance_def by (rule distanceLoop_nonneg) simp


lemma encounterScore_nonneg:
  assumes "\<And>x. 0 \<le> x \<Longrightarrow> 0 \<le> rnd x" "encounterScore rnd g u fs f = Inr s"
  shows "0 \<le> s"
proof -
  have c: "0 \<le> countCommonFriends g f fs 0" by (rule countCommonFriends_mono)
  have d: "0 \<le> getNetworkDistance g u f" by (rule getNetworkDistance_nonneg)
  have "(0::rat) \<le> 1 / of_int (getNetworkDistance g u f + 1)"
    using d by simp
  then have 1: "0 \<le> rnd (1 / of_int (getNetworkDistance g u f + 1))"
    by (rule assms(1))
  have 2: "(0::rat) \<le> of_int (countCommonFriends g f fs 0 * 2)"
    using c by simp
  have "0 \<le> rnd (of_int (countCommonFriends g f fs 0 * 2)
      + rnd (1 / of_int (getNetworkDistance g u f + 1)))"
    by (rule assms(1)) (rule add_nonneg_nonneg [OF 2 1])
  with assms(2) show ?thesis
    by (simp add: encounterScore_def Let_def split: if_splits)
qed

lemma addScore_nonneg:
  assumes "\<And>x. 0 \<le> x \<Longrightarrow> 0 \<le> rnd x" "\<forall>p \<in> set m. 0 \<le> snd p" "0 \<le> s"
  shows "\<forall>p \<in> set (addScore rnd k s m). 0 \<le> snd p"
proof
  fix p assume "p \<in> set (addScore rnd k s m)"
  then have "p \<in> insert (k, rnd ((case map_of m k of None \<Rightarrow> 0 | Some v \<Rightarrow> v) + s)) (set m)"
    using set_update_subset [of k _ m] unfolding addScore_def by blast
  then consider "p = (k, rnd ((case map_of m k of None \<Rightarrow> 0 | Some v \<Rightarrow> v) + s))" | "p \<in> set m"
    by blast
  then show "0 \<le> snd p"
  proof cases
    case 1
    have "0 \<le> (case map_of m k of None \<Rightarrow> 0 | Some v \<Rightarrow> v)"
    proof (cases "map_of m k")
      case None
      then show ?thesis by simp
    next
      case (Some v)
      then have "(k, v) \<in> set m" by (rule map_of_SomeD)
      with assms(2) have "0 \<le> v" by fastforce
      with Some show ?thesis by simp
    qed
    then have "0 \<le> (case map_of m k of None \<Rightarrow> 0 | Some v \<Rightarrow> v) + s"
      using assms(3) by (rule add_nonneg_nonneg)
    then have "0 \<le> rnd ((case map_of m k of None \<Rightarrow> 0 | Some v \<Rightarrow> v) + s)"
      by (rule assms(1))
    with 1 show ?thesis by simp
  next
    case 2
    with assms(2) show ?thesis by blast
  qed
qed

lemma scoreFriendsOfFriend_nonneg:
  assumes "\<And>x. 0 \<le> x \<Longrightarrow> 0 \<le> rnd x"
  shows "\<forall>p \<in> set m. 0 \<le> snd p \<Longrightarrow> scoreFriendsOfFriend rnd g u fs ns m = Inr m' \<Longrightarrow>
     \<forall>p \<in> set m'. 0 \<le> snd p"
proof (induction ns arbitrary: m)
  case Nil
  then show ?case by simp
next
  case (Cons n ns)
  show ?case
  proof (cases "n = u \<or> n \<in> set fs")
    case True
    with Cons.prems(2) have "scoreFriendsOfFriend rnd g u fs ns m = Inr m'" by simp
    with Cons.prems(1) show ?thesis by (rule Cons.IH)
  next
    case False
    with Cons.prems(2) obtain s where s: "encounterScore rnd g u fs n = Inr s"
      and r: "scoreFriendsOfFriend rnd g u fs ns (addScore rnd n s m) = Inr m'"
      by (auto split: sum.splits)
    have "0 \<le> s" using assms s by (rule encounterScore_nonneg)
    with assms Cons.prems(1) have "\<forall>p \<in> set (addScore rnd n s m). 0 \<le> snd p"
      by (rule addScore_nonneg)
    then show ?thesis using r by (rule Cons.IH)
  qed
qed

lemma scoreFriends_nonneg:
  assumes "\<And>x. 0 \<le> x \<Longrightarrow> 0 \<le> rnd x"
  shows "\<forall>p \<in> set m. 0 \<le> snd p \<Longrightarrow> scoreFriends rnd g u fs cs m = Inr m' \<Longrightarrow>
     \<forall>p \<in> set m'. 0 \<le> snd p"
proof (induction cs arbitrary: m)
  case Nil
  then show ?case by simp
next
  case (Cons c cs)
  from Cons.prems(2) obtain m1 where
    1: "scoreFriendsOfFriend rnd g u fs (getFriends g c) m = Inr m1"
    and 2: "scoreFriends rnd g u fs cs m1 = Inr m'"
    by (auto split: sum.splits)
  have "\<forall>p \<in> set m1. 0 \<le> snd p"
    using assms Cons.prems(1) 1 by (rule scoreFriendsOfFriend_nonneg)
  then show ?case using 2 by (rule Cons.IH)
qed

lemma static_cast_int_nonneg: "0 \<le> x \<Longrightarrow> static_cast_int x = Inr i \<Longrightarrow> 0 \<le> i"
  by (auto simp: static_cast_int_def Let_def split: if_splits)

lemma castScores_nonneg:
  "\<forall>p \<in> set m. 0 \<le> snd p \<Longrightarrow> castScores m = Inr r \<Longrightarrow> \<forall>p \<in> set r. 0 \<le> snd p"
proof (induction m arbitrary: r)
  case Nil
  then show ?case by simp
next
  case (Cons kv m)
  obtain k v where kv: "kv = (k, v)" by (cases kv)
  from Cons.prems(2) obtain i r' where i: "static_cast_int v = Inr i"
    and r': "castScores m = Inr r'" and r: "r = (k, i) # r'"
    unfolding kv by (auto split: sum.splits)
  have "0 \<le> i" using Cons.prems(1) i by (intro static_cast_int_nonneg [of v]) (simp_all add: kv)
  moreover have "\<forall>p \<in> set r'. 0 \<le> snd p"
    using Cons.prems(1) r' by (intro Cons.IH) simp_all
  ultimately show ?case by (simp add: r)
qed

text \<open>
  C8, as amended. C8 states that for every graph every score in the result of
  \<open>advancedRecommendation(u, maxDistance)\<close> is a non-negative integer. In the graph
  \<open>crowd 32768\<close> the summed score of the one candidate is at least \<open>2^31\<close>, and its
  conversion to \<^verbatim>\<open>int\<close> has no defined result (\<open>advancedRecommendation_undefined\<close> below).
  What holds: in every call whose integer operations and conversions are defined, that is,
  in which every summed score truncates to an \<^verbatim>\<open>int\<close>, every score in the result is a
  non-negative integer: each encounter contributes \<open>commonFriends * 2 + 1 / (distance + 1)\<close>,
  which is not negative, the contributions are summed, and the sum is truncated towards
  zero. The statement holds for every rounding \<open>rnd\<close> that maps no non-negative number to
  a negative one.
\<close>

theorem advancedRecommendation_nonneg:
  assumes "\<forall>x. 0 \<le> x \<longrightarrow> 0 \<le> rnd x"
    and "advancedRecommendation rnd g u maxDistance = Inr recommendations"
    and "(c, score) \<in> set recommendations"
  shows "0 \<le> score"
proof -
  have rnd: "\<And>x. 0 \<le> x \<Longrightarrow> 0 \<le> rnd x" using assms(1) by blast
  from assms(2) obtain m r where m: "scoreFriends rnd g u (getFriends g u) (getFriends g u) [] = Inr m"
    and r: "castScores m = Inr r" and s: "recommendations = sort_key (\<lambda>p. - snd p) r"
    by (auto simp: advancedRecommendation_def Let_def split: sum.splits)
  have "\<forall>p \<in> set m. 0 \<le> snd p"
  proof (rule scoreFriends_nonneg)
    show "0 \<le> rnd x" if "0 \<le> x" for x using that by (rule rnd)
    show "scoreFriends rnd g u (getFriends g u) (getFriends g u) [] = Inr m" by (rule m)
  qed simp
  then have "\<forall>p \<in> set r. 0 \<le> snd p" using r by (rule castScores_nonneg)
  moreover have "(c, score) \<in> set r" using assms(3) by (simp add: s)
  ultimately show ?thesis by fastforce
qed

theorem advancedRecommendation_nonneg_witness:
  "advancedRecommendation (\<lambda>x. x) demo 1 2 = Inr [(4, 8), (5, 2)] \<and> (0::int) \<le> 8"
proof -
  have 1: "\<forall>x::rat. 0 \<le> x \<longrightarrow> 0 \<le> (\<lambda>x. x) x" by simp
  have 2: "advancedRecommendation (\<lambda>x. x) demo 1 2 = Inr [(4, 8), (5, 2)]"
    by (simp add: advancedRecommendation_def demo_eq getFriends_def encounterScore_def
      getNetworkDistance_def addScore_def static_cast_int_def INT_MAX_def Let_def floors)
  have 3: "(4, 8) \<in> set [(4, 8), (5, 2 :: int)]" by simp
  from 2 advancedRecommendation_nonneg [OF 1 2 3] show ?thesis by (simp only: simp_thms)
qed


section \<open>Pairwise distance is the shortest-path hop count\<close>

lemma visitNeighbors_result:
  "visitNeighbors d ns (visited, queue) = (visited', queue') \<Longrightarrow>
     visited' = visited \<union> set ns \<and>
     (\<exists>new. queue' = queue @ map (\<lambda>n. (n, d + 1)) new \<and> set new = set ns - visited)"
proof (induction ns arbitrary: visited queue)
  case Nil
  then have "visited' = visited" "queue' = queue" by simp_all
  then show ?case by (intro conjI exI [of _ "[]"]) simp_all
next
  case (Cons n ns)
  show ?case
  proof (cases "n \<in> visited")
    case True
    with Cons.prems have "visitNeighbors d ns (visited, queue) = (visited', queue')" by simp
    from Cons.IH [OF this] obtain new where v: "visited' = visited \<union> set ns"
      and q: "queue' = queue @ map (\<lambda>n. (n, d + 1)) new"
      and n: "set new = set ns - visited"
      by (elim conjE exE)
    have "visited' = visited \<union> set (n # ns)" using v True by auto
    moreover have "set new = set (n # ns) - visited" using n True by auto
    ultimately show ?thesis using q by (intro conjI exI [of _ new])
  next
    case False
    with Cons.prems
    have "visitNeighbors d ns (insert n visited, queue @ [(n, d + 1)]) = (visited', queue')"
      by simp
    from Cons.IH [OF this] obtain new where v: "visited' = insert n visited \<union> set ns"
      and q: "queue' = (queue @ [(n, d + 1)]) @ map (\<lambda>n. (n, d + 1)) new"
      and n: "set new = set ns - insert n visited"
      by (elim conjE exE)
    have "queue' = queue @ map (\<lambda>n. (n, d + 1)) (n # new)" using q by simp
    moreover have "set (n # new) = set (n # ns) - visited" using n False by auto
    moreover have "visited' = visited \<union> set (n # ns)" using v by auto
    ultimately show ?thesis by (intro conjI exI [of _ "n # new"])
  qed
qed

lemma sorted_hd_le: "sorted (map snd q) \<Longrightarrow> p \<in> set q \<Longrightarrow> snd (hd q) \<le> snd p"
  by (cases q) auto

lemma coverage:
  assumes "bfs_inv g a t visited queue" "walk g a m x"
  shows "x \<in> visited \<or> (queue \<noteq> [] \<and> snd (hd queue) < int m)"
  using assms(2)
proof (induction rule: walk.induct)
  case walk_start
  from assms(1) show ?case by (simp add: bfs_inv_def)
next
  case (walk_step n y x)
  from walk_step.IH show ?case
  proof
    assume y: "y \<in> visited"
    show ?thesis
    proof (cases "y \<in> fst ` set queue")
      case True
      then obtain p where p: "p \<in> set queue" "fst p = y" by auto
      with assms(1) walk_step.hyps(1) have "nat (snd p) \<le> n" "0 \<le> snd p"
        by (auto simp: bfs_inv_def labelled_def)
      moreover have "snd (hd queue) \<le> snd p"
        using assms(1) p(1) by (intro sorted_hd_le) (simp_all add: bfs_inv_def levelled_def)
      ultimately have "snd (hd queue) < int (Suc n)" by simp
      moreover have "queue \<noteq> []" using p(1) by auto
      ultimately show ?thesis by simp
    next
      case False
      with assms(1) y have "set (getFriends g y) \<subseteq> visited"
        by (auto simp: bfs_inv_def settled_def)
      with walk_step.hyps(2) show ?thesis by auto
    qed
  next
    assume "queue \<noteq> [] \<and> snd (hd queue) < int n"
    then show ?thesis by simp
  qed
qed


lemma sorted_map_const: "sorted (map (\<lambda>n. c) xs)"
  by (induction xs) auto

lemma bfs_inv_step:
  assumes inv: "bfs_inv g a t visited ((cur, d) # q)" and ne: "cur \<noteq> t"
    and v: "visitNeighbors d (getFriends g cur) (visited, q) = (visited', q')"
  shows "bfs_inv g a t visited' q'"
proof -
  from visitNeighbors_result [OF v] obtain new
    where vis: "visited' = visited \<union> set (getFriends g cur)"
      and q': "q' = q @ map (\<lambda>n. (n, d + 1)) new"
      and new: "set new = set (getFriends g cur) - visited"
    by (elim conjE exE)
  from inv have a: "a \<in> visited" and lab: "labelled g a visited ((cur, d) # q)"
    and lev: "levelled ((cur, d) # q)" and sett: "settled g t visited ((cur, d) # q)"
    by (simp_all add: bfs_inv_def)
  from lab have d0: "0 \<le> d" and wcur: "walk g a (nat d) cur"
    by (simp_all add: labelled_def)
  from lev have lo: "\<forall>p \<in> set q. d \<le> snd p" and hi: "\<forall>p \<in> set q. snd p \<le> d + 1"
    and so: "sorted (map snd q)"
    by (simp_all add: levelled_def)
  have range: "d \<le> snd p \<and> snd p \<le> d + 1" if "p \<in> set q'" for p
    using that lo hi unfolding q' by auto
  have "labelled g a visited' q'"
    unfolding labelled_def
  proof
    fix p assume "p \<in> set q'"
    then consider "p \<in> set q" | n where "n \<in> set new" "p = (n, d + 1)"
      unfolding q' by auto
    then show "fst p \<in> visited' \<and> 0 \<le> snd p \<and> walk g a (nat (snd p)) (fst p)
        \<and> (\<forall>m. walk g a m (fst p) \<longrightarrow> nat (snd p) \<le> m)"
    proof cases
      case 1
      with lab have "fst p \<in> visited \<and> 0 \<le> snd p \<and> walk g a (nat (snd p)) (fst p)
          \<and> (\<forall>m. walk g a m (fst p) \<longrightarrow> nat (snd p) \<le> m)"
        by (simp add: labelled_def)
      then show ?thesis by (simp add: vis)
    next
      case 2
      from 2(1) new have n: "n \<in> set (getFriends g cur)" "n \<notin> visited" by auto
      have "nat (d + 1) = Suc (nat d)" using d0 by simp
      then have w: "walk g a (nat (d + 1)) n"
        using walk_step [OF wcur n(1)] by simp
      have "nat (d + 1) \<le> m" if "walk g a m n" for m
      proof -
        from coverage [OF inv that] n(2) have "d < int m" by simp
        then show ?thesis by simp
      qed
      with w n d0 show ?thesis by (simp add: 2(2) vis)
    qed
  qed
  moreover have "levelled q'"
    unfolding levelled_def
  proof
    have "sorted (map snd q @ map (\<lambda>n. d + 1) new)"
      using so hi by (simp add: sorted_append sorted_map_const)
    then show "sorted (map snd q')" by (simp add: q' comp_def)
    show "\<forall>p \<in> set q'. snd p \<le> snd (hd q') + 1"
    proof
      fix p assume p: "p \<in> set q'"
      then have "q' \<noteq> []" by auto
      then have "hd q' \<in> set q'" by simp
      with range have "d \<le> snd (hd q')" by blast
      moreover from range p have "snd p \<le> d + 1" by blast
      ultimately show "snd p \<le> snd (hd q') + 1" by simp
    qed
  qed
  moreover have "settled g t visited' q'"
    unfolding settled_def
  proof (intro ballI impI)
    fix x assume x: "x \<in> visited'" "x \<notin> fst ` set q'"
    have notnew: "x \<notin> set new" using x(2) unfolding q' by force
    with x(1) new vis have xv: "x \<in> visited" by auto
    have xq: "x \<notin> fst ` set q" using x(2) unfolding q' by auto
    show "x \<noteq> t \<and> set (getFriends g x) \<subseteq> visited'"
    proof (cases "x = cur")
      case True
      with ne vis show ?thesis by auto
    next
      case False
      with xq have "x \<notin> fst ` set ((cur, d) # q)" by simp
      with sett xv have "x \<noteq> t \<and> set (getFriends g x) \<subseteq> visited"
        unfolding settled_def by blast
      then show ?thesis using vis by auto
    qed
  qed
  ultimately show ?thesis using a vis by (simp add: bfs_inv_def)
qed

lemma hops_eq: "walk g a n b \<Longrightarrow> (\<And>m. walk g a m b \<Longrightarrow> n \<le> m) \<Longrightarrow> hops g a b = n"
  unfolding hops_def by (rule Least_equality)

lemma distanceLoop_shortest:
  "bfs_inv g a t visited queue \<Longrightarrow>
   distanceLoop g t visited queue = (if reachable g a t then int (hops g a t) else INT_MAX)"
proof (induction g t visited queue rule: distanceLoop.induct)
  case (1 g t visited)
  have "\<not> reachable g a t"
  proof
    assume "reachable g a t"
    then obtain m where "walk g a m t" by (auto simp: reachable_def)
    from coverage [OF "1.prems" this] have "t \<in> visited" by simp
    with "1.prems" show False by (auto simp: bfs_inv_def settled_def)
  qed
  then show ?case by simp
next
  case (2 g t visited cur d q)
  show ?case
  proof (cases "cur = t")
    case True
    from "2.prems" have "0 \<le> d" and w: "walk g a (nat d) t"
      and least: "\<And>m. walk g a m t \<Longrightarrow> nat d \<le> m"
      by (simp_all add: bfs_inv_def labelled_def True)
    from w least have "hops g a t = nat d" by (rule hops_eq)
    moreover from w have "reachable g a t" by (auto simp: reachable_def)
    ultimately show ?thesis using True \<open>0 \<le> d\<close> by simp
  next
    case False
    obtain visited' q' where
      v: "visitNeighbors d (getFriends g cur) (visited, q) = (visited', q')"
      by (cases "visitNeighbors d (getFriends g cur) (visited, q)")
    have "bfs_inv g a t visited' q'"
      using "2.prems" False v by (rule bfs_inv_step)
    from "2.IH" [OF False v [symmetric] this] False v show ?thesis by simp
  qed
qed

lemma bfs_inv_start: "bfs_inv g a t {a} [(a, 0)]"
  by (auto simp: bfs_inv_def labelled_def levelled_def settled_def intro: walk_start)

lemma walk_from_unknown: "walk g a n x \<Longrightarrow> \<not> contains_user g a \<Longrightarrow> x = a"
proof (induction rule: walk.induct)
  case walk_start
  show ?case by simp
next
  case (walk_step n x y)
  then have "y \<in> set (getFriends g a)" by simp
  with walk_step.prems show ?case by (simp add: contains_user_def getFriends_def)
qed

lemma walk_to_unknown:
  assumes "walk g a n b" "mutual g" "\<not> contains_user g b"
  shows "b = a"
  using assms(1)
proof (cases rule: walk.cases)
  case walk_start
  then show ?thesis by simp
next
  case (walk_step n x)
  with assms(2) have "x \<in> set (getFriends g b)" by (simp add: mutual_def)
  with assms(3) show ?thesis by (simp add: contains_user_def getFriends_def)
qed

text \<open>
  C5, as amended. C5 states that \<open>getNetworkDistance(a, b)\<close> returns the sentinel whenever no
  path exists between \<open>a\<close> and \<open>b\<close>, including whenever \<open>a\<close> or \<open>b\<close> is unknown to the
  graph, and the shortest-path hop count otherwise. For an unknown \<open>a\<close> the call
  \<open>getNetworkDistance(a, a)\<close> returns 0 (\<open>getNetworkDistance_unknown_self\<close> below). What
  holds: the result is the shortest-path hop count whenever a path leads from \<open>a\<close> to
  \<open>b\<close>, the path of no hops from an identifier to itself included, and the sentinel
  whenever there is none; in a graph with mutual connections there is none, and the result
  is the sentinel, whenever \<open>a\<close> and \<open>b\<close> differ and one of them is unknown; and
  \<open>getNetworkDistance(a, a)\<close> is 0 for every \<open>a\<close>.
\<close>

theorem getNetworkDistance_shortest:
  "getNetworkDistance g a b = (if reachable g a b then int (hops g a b) else INT_MAX)
   \<and> (mutual g \<and> a \<noteq> b \<and> (\<not> contains_user g a \<or> \<not> contains_user g b)
        \<longrightarrow> getNetworkDistance g a b = INT_MAX)
   \<and> getNetworkDistance g a a = 0"
proof -
  have 1: "getNetworkDistance g a b = (if reachable g a b then int (hops g a b) else INT_MAX)"
    unfolding getNetworkDistance_def by (rule distanceLoop_shortest [OF bfs_inv_start])
  have "\<not> reachable g a b"
    if "mutual g" "a \<noteq> b" "\<not> contains_user g a \<or> \<not> contains_user g b"
  proof
    assume "reachable g a b"
    then obtain n where w: "walk g a n b" by (auto simp: reachable_def)
    from that(3) have "b = a"
    proof
      assume "\<not> contains_user g a"
      with w show ?thesis by (rule walk_from_unknown)
    next
      assume "\<not> contains_user g b"
      with w that(1) show ?thesis by (rule walk_to_unknown)
    qed
    with that(2) show False by simp
  qed
  with 1 have 2: "mutual g \<and> a \<noteq> b \<and> (\<not> contains_user g a \<or> \<not> contains_user g b)
        \<longrightarrow> getNetworkDistance g a b = INT_MAX"
    by simp
  have 3: "getNetworkDistance g a a = 0" by (simp add: getNetworkDistance_def)
  from 1 2 3 show ?thesis by (intro conjI)
qed

text \<open>
  On the empty graph identifier 7 is unknown, and its distance to itself is 0, not the
  sentinel.
\<close>

theorem getNetworkDistance_unknown_self: "\<not> contains_user [] 7 \<and> getNetworkDistance [] 7 7 = 0
   \<and> getNetworkDistance [] 7 7 \<noteq> INT_MAX"
  by (simp add: contains_user_def getNetworkDistance_def INT_MAX_def)

lemma mutual_chain: "mutual chain"
  unfolding chain_def by (intro mutual_addConnection mutual_empty)

theorem getNetworkDistance_shortest_witness:
  "mutual chain \<and> \<not> contains_user chain 7 \<and> getNetworkDistance chain 1 7 = INT_MAX
   \<and> getNetworkDistance chain 1 4 = 3"
proof -
  have 1: "mutual chain" by (rule mutual_chain)
  have 2: "\<not> contains_user chain 7" by (simp add: chain_eq contains_user_def)
  have 3: "getNetworkDistance chain 1 4 = 3"
    by (simp add: getNetworkDistance_def chain_eq getFriends_def)
  from 1 2 3 getNetworkDistance_shortest [of chain 1 7] show ?thesis
    by simp
qed


section \<open>The distance used by the advanced recommendation\<close>

text \<open>
  \<open>advancedRecommendation\<close> asks for the distance from \<open>userId\<close> to a neighbour of one of
  its friends only. That distance is at most 2, so \<open>networkDistance + 1\<close> stays in the range
  of \<^verbatim>\<open>int\<close> in every call.
\<close>

lemma getNetworkDistance_two_hops:
  assumes "f \<in> set (getFriends g u)" "x \<in> set (getFriends g f)"
  shows "getNetworkDistance g u x \<le> 2" "getNetworkDistance g u x + 1 \<le> INT_MAX"
proof -
  have w: "walk g u (Suc (Suc 0)) x"
    using assms by (intro walk_step [OF walk_step [OF walk_start]])
  then have c: "reachable g u x" by (auto simp: reachable_def)
  have "hops g u x \<le> Suc (Suc 0)"
    unfolding hops_def using w by (rule Least_le)
  moreover have "distanceLoop g x {u} [(u, 0)]
      = (if reachable g u x then int (hops g u x) else INT_MAX)"
    by (rule distanceLoop_shortest [OF bfs_inv_start])
  with c have "getNetworkDistance g u x = int (hops g u x)"
    by (simp only: getNetworkDistance_def if_True)
  ultimately show "getNetworkDistance g u x \<le> 2" by simp
  then show "getNetworkDistance g u x + 1 \<le> INT_MAX" by (simp add: INT_MAX_def)
qed


section \<open>Advanced recommendation: a summed score beyond the range of int\<close>

text \<open>
  The neighbour sets of \<open>crowd n\<close>: user 0 and user \<open>-1\<close> are connected to
  \<open>1, \<dots>, n\<close>, each of which is connected to 0 and \<open>-1\<close>, and no collection holds an
  element twice.
\<close>

lemma crowd_member:
  "w \<in> set (getFriends (crowd n) v) \<longleftrightarrow>
     ((v = 0 \<or> v = - 1) \<and> 1 \<le> w \<and> w \<le> int n) \<or> (1 \<le> v \<and> v \<le> int n \<and> (w = 0 \<or> w = - 1))"
proof (induction n arbitrary: w v)
  case 0
  show ?case by (auto simp: getFriends_def)
next
  case (Suc n)
  show ?case
    unfolding crowd.simps getFriends_addConnection Un_iff Suc.IH
    by (auto split: if_splits)
qed

lemma getFriends_addConnection_distinct:
  "distinct (getFriends g u) \<Longrightarrow> distinct (getFriends (addConnection g a b) u)"
  by (auto simp: addConnection_def Let_def getFriends_update subscript_getFriends
      getFriends_addUser)

lemma crowd_distinct: "distinct (getFriends (crowd n) v)"
proof (induction n)
  case 0
  show ?case by (simp add: getFriends_def)
next
  case (Suc n)
  then show ?case by (simp add: getFriends_addConnection_distinct)
qed

lemma crowd_friends: "set (getFriends (crowd n) 0) = {1..int n}"
  "set (getFriends (crowd n) (- 1)) = {1..int n}"
  by (auto simp: crowd_member)

lemma crowd_friend_of_friend:
  "f \<in> set (getFriends (crowd n) 0) \<Longrightarrow> set (getFriends (crowd n) f) = {0, - 1}"
  by (auto simp: crowd_member)

lemma crowd_length: "length (getFriends (crowd n) 0) = n"
proof -
  have "length (getFriends (crowd n) 0) = card (set (getFriends (crowd n) 0))"
    using crowd_distinct by (rule distinct_card [symmetric])
  then show ?thesis by (simp add: crowd_friends)
qed


lemma countCommonFriends_all:
  "set xs \<subseteq> set (getFriends g x) \<Longrightarrow> countCommonFriends g x xs c = c + int (length xs)"
  by (induction xs arbitrary: c) simp_all

lemma encounterScore_full:
  assumes rnd: "\<And>y. 0 \<le> y \<Longrightarrow> of_int \<lfloor>y\<rfloor> \<le> rnd y"
    and sub: "set fs \<subseteq> set (getFriends g x)"
    and f: "f \<in> set (getFriends g u)" "x \<in> set (getFriends g f)"
    and small: "int (length fs) * 2 \<le> INT_MAX"
  shows "\<exists>s. encounterScore rnd g u fs x = Inr s \<and> of_int (int (length fs) * 2) \<le> s"
proof -
  let ?c = "int (length fs)" and ?d = "getNetworkDistance g u x"
  have c: "countCommonFriends g x fs 0 = ?c"
    using sub by (simp add: countCommonFriends_all)
  have d: "0 \<le> ?d" "?d + 1 \<le> INT_MAX"
    using getNetworkDistance_nonneg getNetworkDistance_two_hops(2) [OF f] by simp_all
  have "(0::rat) \<le> 1 / of_int (?d + 1)" using d(1) by simp
  then have "of_int \<lfloor>1 / rat_of_int (?d + 1)\<rfloor> \<le> rnd (1 / of_int (?d + 1))"
    by (rule rnd)
  moreover have "(0::rat) \<le> of_int \<lfloor>1 / rat_of_int (?d + 1)\<rfloor>"
    using d(1) by simp
  ultimately have r: "0 \<le> rnd (1 / of_int (?d + 1))" by (rule order_trans [rotated])
  let ?y = "rat_of_int (?c * 2) + rnd (1 / of_int (?d + 1))"
  have y: "rat_of_int (?c * 2) \<le> ?y" using r by simp
  then have "0 \<le> ?y" by (simp add: order_trans [OF _ y])
  then have "of_int \<lfloor>?y\<rfloor> \<le> rnd ?y" by (rule rnd)
  moreover have "?c * 2 \<le> \<lfloor>?y\<rfloor>" using y by (simp only: le_floor_iff)
  then have "rat_of_int (?c * 2) \<le> of_int \<lfloor>?y\<rfloor>" by (simp only: of_int_le_iff)
  ultimately have "rat_of_int (?c * 2) \<le> rnd ?y" by (rule order_trans [rotated])
  moreover have "encounterScore rnd g u fs x = Inr (rnd ?y)"
    using small d(2) by (simp add: encounterScore_def Let_def c)
  ultimately show ?thesis by blast
qed


lemma stored_addScore: "stored k (addScore rnd k s m) = rnd (stored k m + s)"
  by (simp add: stored_def addScore_def update_conv')

lemma scoreFriendsOfFriend_pair:
  assumes "distinct (getFriends g f)" "set (getFriends g f) = {u, x}" "x \<noteq> u" "x \<notin> set fs"
  shows "scoreFriendsOfFriend rnd g u fs (getFriends g f) m =
     (case encounterScore rnd g u fs x of Inl e \<Rightarrow> Inl e | Inr s \<Rightarrow> Inr (addScore rnd x s m))"
proof -
  from assms(1,2) have "getFriends g f = [u, x] \<or> getFriends g f = [x, u]"
    using assms(3) by (intro perm2) simp_all
  then show ?thesis
  proof
    assume "getFriends g f = [u, x]"
    with assms(3,4) show ?thesis by (simp split: sum.splits)
  next
    assume "getFriends g f = [x, u]"
    with assms(3,4) show ?thesis by (simp split: sum.splits)
  qed
qed

lemma scoreFriends_grows:
  assumes rnd: "\<And>y. 0 \<le> y \<Longrightarrow> of_int \<lfloor>y\<rfloor> \<le> rnd y"
    and x: "x \<noteq> u" "x \<notin> set fs" "set fs \<subseteq> set (getFriends g x)"
    and small: "int (length fs) * 2 \<le> INT_MAX"
  shows "\<forall>f \<in> set cs. f \<in> set (getFriends g u) \<and> distinct (getFriends g f)
        \<and> set (getFriends g f) = {u, x} \<Longrightarrow>
     0 \<le> L \<Longrightarrow> of_int L \<le> stored x m \<Longrightarrow>
     \<exists>m'. scoreFriends rnd g u fs cs m = Inr m'
        \<and> of_int (L + int (length cs) * (int (length fs) * 2)) \<le> stored x m'"
proof (induction cs arbitrary: m L)
  case Nil
  then show ?case by simp
next
  case (Cons c cs)
  let ?n2 = "int (length fs) * 2"
  from Cons.prems(1) have c: "c \<in> set (getFriends g u)" "distinct (getFriends g c)"
    "set (getFriends g c) = {u, x}"
    and cs: "\<forall>f \<in> set cs. f \<in> set (getFriends g u) \<and> distinct (getFriends g f)
        \<and> set (getFriends g f) = {u, x}"
    by simp_all
  from c(3) have xc: "x \<in> set (getFriends g c)" by simp
  from encounterScore_full [OF rnd x(3) c(1) xc small]
  obtain s where s: "encounterScore rnd g u fs x = Inr s" and big: "of_int ?n2 \<le> s"
    by blast
  have one: "scoreFriendsOfFriend rnd g u fs (getFriends g c) m = Inr (addScore rnd x s m)"
    using scoreFriendsOfFriend_pair [OF c(2,3) x(1,2)] s by simp
  have sum: "rat_of_int (L + ?n2) \<le> stored x m + s"
    using Cons.prems(3) big by simp
  have "0 \<le> L + ?n2" using Cons.prems(2) by simp
  then have "(0::rat) \<le> of_int (L + ?n2)" by (simp only: of_int_0_le_iff)
  then have "0 \<le> stored x m + s" using sum by (rule order_trans)
  then have "of_int \<lfloor>stored x m + s\<rfloor> \<le> rnd (stored x m + s)" by (rule rnd)
  moreover have "L + ?n2 \<le> \<lfloor>stored x m + s\<rfloor>" using sum by (simp only: le_floor_iff)
  then have "rat_of_int (L + ?n2) \<le> of_int \<lfloor>stored x m + s\<rfloor>"
    by (simp only: of_int_le_iff)
  ultimately have "rat_of_int (L + ?n2) \<le> rnd (stored x m + s)"
    by (rule order_trans [rotated])
  then have next_stored: "rat_of_int (L + ?n2) \<le> stored x (addScore rnd x s m)"
    by (simp only: stored_addScore)
  have "0 \<le> L + ?n2" using Cons.prems(2) by simp
  from Cons.IH [OF cs this next_stored]
  obtain m' where m': "scoreFriends rnd g u fs cs (addScore rnd x s m) = Inr m'"
    and le: "rat_of_int (L + ?n2 + int (length cs) * ?n2) \<le> stored x m'"
    by blast
  have "L + ?n2 + int (length cs) * ?n2 = L + int (length (c # cs)) * ?n2"
    by (simp add: algebra_simps)
  with le have "rat_of_int (L + int (length (c # cs)) * ?n2) \<le> stored x m'" by simp
  moreover have "scoreFriends rnd g u fs (c # cs) m = Inr m'"
    using one m' by simp
  ultimately show ?case by blast
qed

lemma static_cast_int_big: "rat_of_int (INT_MAX + 1) \<le> v \<Longrightarrow> static_cast_int v = Inl Undefined"
proof -
  assume v: "rat_of_int (INT_MAX + 1) \<le> v"
  then have "INT_MAX + 1 \<le> \<lfloor>v\<rfloor>" by (simp only: le_floor_iff)
  moreover have "0 \<le> v"
    using v by (rule order_trans [rotated]) (simp add: INT_MAX_def)
  ultimately show ?thesis by (simp add: static_cast_int_def Let_def)
qed

lemma static_cast_int_failure: "static_cast_int v = Inl e \<Longrightarrow> e = Undefined"
  by (simp add: static_cast_int_def Let_def split: if_splits)

lemma castScores_big:
  "(k, v) \<in> set m \<Longrightarrow> static_cast_int v = Inl Undefined \<Longrightarrow> castScores m = Inl Undefined"
proof (induction m)
  case Nil
  then show ?case by simp
next
  case (Cons p m)
  obtain k' v' where p: "p = (k', v')" by (cases p)
  show ?case
  proof (cases "static_cast_int v'")
    case (Inl e)
    then have "e = Undefined" by (rule static_cast_int_failure)
    with Inl show ?thesis by (simp add: p)
  next
    case (Inr i)
    with Cons.prems have "(k, v) \<in> set m" by (auto simp: p)
    then have "castScores m = Inl Undefined" using Cons.prems(2) by (rule Cons.IH)
    with Inr show ?thesis by (simp add: p)
  qed
qed

lemma advancedRecommendation_overflow:
  assumes rnd: "\<And>y. 0 \<le> y \<Longrightarrow> of_int \<lfloor>y\<rfloor> \<le> rnd y"
    and x: "x \<noteq> u" "x \<notin> set (getFriends g u)" "set (getFriends g u) \<subseteq> set (getFriends g x)"
    and fs: "\<forall>f \<in> set (getFriends g u). distinct (getFriends g f) \<and> set (getFriends g f) = {u, x}"
    and small: "int (length (getFriends g u)) * 2 \<le> INT_MAX"
    and big: "INT_MAX + 1 \<le> int (length (getFriends g u)) * (int (length (getFriends g u)) * 2)"
  shows "advancedRecommendation rnd g u maxDistance = Inl Undefined"
proof -
  let ?fs = "getFriends g u"
  have all: "\<forall>f \<in> set ?fs. f \<in> set (getFriends g u) \<and> distinct (getFriends g f)
        \<and> set (getFriends g f) = {u, x}"
    using fs by simp
  have "rat_of_int 0 \<le> stored x []" by (simp add: stored_def)
  from scoreFriends_grows [OF rnd x small all order_refl this]
  obtain m' where m': "scoreFriends rnd g u ?fs ?fs [] = Inr m'"
    and le: "rat_of_int (0 + int (length ?fs) * (int (length ?fs) * 2)) \<le> stored x m'"
    by blast
  from big have "rat_of_int (INT_MAX + 1) \<le> of_int (0 + int (length ?fs) * (int (length ?fs) * 2))"
    by (simp only: of_int_le_iff add_0)
  then have v: "rat_of_int (INT_MAX + 1) \<le> stored x m'" using le by (rule order_trans)
  have "(0::rat) < of_int (INT_MAX + 1)" by (simp add: INT_MAX_def)
  then have pos: "0 < stored x m'" using v by (rule less_le_trans)
  then obtain w where w: "map_of m' x = Some w" "stored x m' = w"
    by (cases "map_of m' x") (simp_all add: stored_def)
  then have "(x, w) \<in> set m'" by (intro map_of_SomeD)
  moreover have "static_cast_int w = Inl Undefined"
    using v w(2) by (intro static_cast_int_big) simp
  ultimately have "castScores m' = Inl Undefined" by (rule castScores_big)
  with m' show ?thesis by (simp add: advancedRecommendation_def Let_def)
qed

lemma crowd_overflow:
  assumes "\<And>y. 0 \<le> y \<Longrightarrow> of_int \<lfloor>y\<rfloor> \<le> rnd y"
  shows "advancedRecommendation rnd (crowd 32768) 0 maxDistance = Inl Undefined"
proof (rule advancedRecommendation_overflow [where x = "- 1"])
  show "of_int \<lfloor>y\<rfloor> \<le> rnd y" if "0 \<le> y" for y using that by (rule assms)
  show "(- 1 :: int) \<noteq> 0" by simp
  show "- 1 \<notin> set (getFriends (crowd 32768) 0)" by (simp add: crowd_member)
  show "set (getFriends (crowd 32768) 0) \<subseteq> set (getFriends (crowd 32768) (- 1))"
    by (simp add: crowd_friends)
  show "\<forall>f \<in> set (getFriends (crowd 32768) 0).
      distinct (getFriends (crowd 32768) f) \<and> set (getFriends (crowd 32768) f) = {0, - 1}"
    by (simp add: crowd_distinct crowd_friend_of_friend)
  show "int (length (getFriends (crowd 32768) 0)) * 2 \<le> INT_MAX"
    by (simp add: crowd_length INT_MAX_def)
  show "INT_MAX + 1
      \<le> int (length (getFriends (crowd 32768) 0)) * (int (length (getFriends (crowd 32768) 0)) * 2)"
    by (simp add: crowd_length INT_MAX_def)
qed

text \<open>
  With 32768 friends of user 0, all connected to user \<open>-1\<close>, the candidate \<open>-1\<close> is
  encountered 32768 times with 32768 common friends each time. Its summed score is at least
  \<open>32768 * 65536 = 2^31\<close>, for exact arithmetic and for every rounding that never goes
  below the integer part of a non-negative number (\<open>crowd_overflow\<close>; floating-point
  rounding is monotone and represents these integers exactly). The conversion
  \<^verbatim>\<open>static_cast<int>\<close> of that sum is not defined, so the call has no result made of
  non-negative integers.
\<close>

theorem advancedRecommendation_undefined:
  "advancedRecommendation (\<lambda>x. x) (crowd 32768) 0 2 = Inl Undefined"
  by (rule crowd_overflow) (rule of_int_floor_le)

end
